theory Spec2Isabelle
  imports Complex_Main "HOL-Library.FSet"
begin

text \<open>
  The block compressor of the hierarchical matrix library: \<open>HMatrixAcaCompressor\<close>,
  with its members \<open>compressBlock\<close>, \<open>evaluateMatMinusLowRank\<close> and \<open>randomIndex\<close>
  (\<open>hmatrix_aca_compressor_impl.hpp\<close>, the last part of
  \<open>src/lib/assembly/discrete_sparse_linear_operator.cpp\<close>, lines 440 to 639; line
  numbers below are those of that file). The theory gives a model of the scalars and of
  the Eigen matrix operations the compressor calls, then the three member functions as
  they are written, then the properties.
\<close>

section \<open>Scalars: the entries of a matrix\<close>

text \<open>
  The compressor is a template over \<open>ValueType\<close>; the model takes the real instance
  (\<open>double\<close>). A scalar is a finite real, one of the two infinities, or NaN. Finite
  arithmetic is exact: rounding, overflow to infinity and the sign of zero are not
  modelled. The special values follow IEEE 754: NaN is absorbing, \<open>Inf - Inf\<close>,
  \<open>0 * Inf\<close> and \<open>Inf / Inf\<close> are NaN, every ordered comparison with NaN is false
  and NaN is not equal to itself.
\<close>

datatype scalar = Fin real | PInf | NInf | NaN

fun sneg :: "scalar \<Rightarrow> scalar" where
  "sneg (Fin a) = Fin (- a)"
| "sneg PInf = NInf"
| "sneg NInf = PInf"
| "sneg NaN = NaN"

fun splus :: "scalar \<Rightarrow> scalar \<Rightarrow> scalar" where
  "splus (Fin a) (Fin b) = Fin (a + b)"
| "splus NaN _ = NaN"
| "splus _ NaN = NaN"
| "splus PInf NInf = NaN"
| "splus NInf PInf = NaN"
| "splus PInf _ = PInf"
| "splus _ PInf = PInf"
| "splus NInf _ = NInf"
| "splus _ NInf = NInf"

definition sminus :: "scalar \<Rightarrow> scalar \<Rightarrow> scalar" where
  "sminus a b = splus a (sneg b)"

fun infTimes :: "bool \<Rightarrow> real \<Rightarrow> scalar" where
  "infTimes positive b =
     (if b = 0 then NaN else if (0 < b) = positive then PInf else NInf)"

fun smul :: "scalar \<Rightarrow> scalar \<Rightarrow> scalar" where
  "smul (Fin a) (Fin b) = Fin (a * b)"
| "smul NaN _ = NaN"
| "smul _ NaN = NaN"
| "smul PInf (Fin b) = infTimes True b"
| "smul NInf (Fin b) = infTimes False b"
| "smul (Fin a) PInf = infTimes True a"
| "smul (Fin a) NInf = infTimes False a"
| "smul PInf PInf = PInf"
| "smul PInf NInf = NInf"
| "smul NInf PInf = NInf"
| "smul NInf NInf = PInf"

fun sdiv :: "scalar \<Rightarrow> scalar \<Rightarrow> scalar" where
  "sdiv (Fin a) (Fin b) =
     (if b = 0 then (if a = 0 then NaN else if 0 < a then PInf else NInf)
      else Fin (a / b))"
| "sdiv NaN _ = NaN"
| "sdiv _ NaN = NaN"
| "sdiv (Fin a) PInf = Fin 0"
| "sdiv (Fin a) NInf = Fin 0"
| "sdiv PInf (Fin b) = (if 0 \<le> b then PInf else NInf)"
| "sdiv NInf (Fin b) = (if 0 \<le> b then NInf else PInf)"
| "sdiv PInf PInf = NaN"
| "sdiv PInf NInf = NaN"
| "sdiv NInf PInf = NaN"
| "sdiv NInf NInf = NaN"

fun sabs :: "scalar \<Rightarrow> scalar" where
  "sabs (Fin a) = Fin \<bar>a\<bar>"
| "sabs PInf = PInf"
| "sabs NInf = PInf"
| "sabs NaN = NaN"

fun ssqrt :: "scalar \<Rightarrow> scalar" where
  "ssqrt (Fin a) = (if a < 0 then NaN else Fin (sqrt a))"
| "ssqrt PInf = PInf"
| "ssqrt NInf = NaN"
| "ssqrt NaN = NaN"

text \<open>The comparison \<open><\<close> of two doubles.\<close>

fun sless :: "scalar \<Rightarrow> scalar \<Rightarrow> bool" where
  "sless (Fin a) (Fin b) = (a < b)"
| "sless NaN _ = False"
| "sless _ NaN = False"
| "sless NInf NInf = False"
| "sless NInf _ = True"
| "sless _ NInf = False"
| "sless PInf _ = False"
| "sless _ PInf = True"

text \<open>The comparison \<open>==\<close> of two doubles: false whenever an operand is NaN.\<close>

fun seq :: "scalar \<Rightarrow> scalar \<Rightarrow> bool" where
  "seq NaN _ = False"
| "seq _ NaN = False"
| "seq a b = (a = b)"

fun isFinite :: "scalar \<Rightarrow> bool" where
  "isFinite (Fin a) = True"
| "isFinite _ = False"

section \<open>Dense matrices and the Eigen operations the compressor uses\<close>

text \<open>
  \<open>Matrix<ValueType>\<close> is a dynamically sized dense matrix: its two dimensions and its
  coefficients. Only coefficients inside the dimensions are ever read.

  Eigen checks the bounds of a block, the shapes of the operands of a product, a
  difference or an assignment, and that a matrix searched for its maximum is not empty,
  with \<open>eigen_assert\<close>. A failed check is the error \<open>EigenAssert\<close>; the run stops there
  (with the assertions compiled out, the behaviour of such a call is undefined).
  \<open>NaNDetected\<close> is the \<open>std::runtime_error("NaN detected.")\<close> that \<open>compressBlock\<close>
  throws.
\<close>

record matrix =
  rows :: nat
  cols :: nat
  coeff :: "nat \<Rightarrow> nat \<Rightarrow> scalar"

datatype error = EigenAssert | NaNDetected

text \<open>\<open>M.resize(r, c); M.setZero()\<close>\<close>

definition zeroMatrix :: "nat \<Rightarrow> nat \<Rightarrow> matrix" where
  "zeroMatrix r c = \<lparr>rows = r, cols = c, coeff = (\<lambda>i j. Fin 0)\<rparr>"

text \<open>\<open>M.block(startRow, startCol, blockRows, blockCols)\<close>\<close>

definition block :: "matrix \<Rightarrow> nat \<Rightarrow> nat \<Rightarrow> nat \<Rightarrow> nat \<Rightarrow> error + matrix" where
  "block M startRow startCol blockRows blockCols =
     (if startRow + blockRows \<le> rows M \<and> startCol + blockCols \<le> cols M
      then Inr \<lparr>rows = blockRows, cols = blockCols,
                coeff = (\<lambda>i j. coeff M (startRow + i) (startCol + j))\<rparr>
      else Inl EigenAssert)"

text \<open>The sum of a list of scalars, accumulated from zero.\<close>

definition ssum :: "scalar list \<Rightarrow> scalar" where
  "ssum xs = foldl splus (Fin 0) xs"

text \<open>\<open>L * R\<close>\<close>

definition mprod :: "matrix \<Rightarrow> matrix \<Rightarrow> error + matrix" where
  "mprod L R =
     (if cols L = rows R
      then Inr \<lparr>rows = rows L, cols = cols R,
                coeff = (\<lambda>i j. ssum (map (\<lambda>k. smul (coeff L i k) (coeff R k j)) [0..<cols L]))\<rparr>
      else Inl EigenAssert)"

text \<open>\<open>L - R\<close>\<close>

definition msub :: "matrix \<Rightarrow> matrix \<Rightarrow> error + matrix" where
  "msub L R =
     (if rows L = rows R \<and> cols L = cols R
      then Inr \<lparr>rows = rows L, cols = cols L,
                coeff = (\<lambda>i j. sminus (coeff L i j) (coeff R i j))\<rparr>
      else Inl EigenAssert)"

text \<open>\<open>M / s\<close> and \<open>M.cwiseAbs()\<close>\<close>

definition divScalar :: "matrix \<Rightarrow> scalar \<Rightarrow> matrix" where
  "divScalar M s = M\<lparr>coeff := (\<lambda>i j. sdiv (coeff M i j) s)\<rparr>"

definition cwiseAbs :: "matrix \<Rightarrow> matrix" where
  "cwiseAbs M = M\<lparr>coeff := (\<lambda>i j. sabs (coeff M i j))\<rparr>"

text \<open>
  The positions of a matrix in the order Eigen traverses a column-major matrix: column
  by column, each from its first row down.
\<close>

definition visitOrder :: "matrix \<Rightarrow> (nat \<times> nat) list" where
  "visitOrder M = concat (map (\<lambda>j. map (\<lambda>i. (i, j)) [0..<rows M]) [0..<cols M])"

text \<open>
  \<open>M.maxCoeff(&rowInd, &colInd)\<close>: the visitor starts at position \<open>(0, 0)\<close> and moves to
  a later position only when its coefficient is strictly greater.
\<close>

definition maxCoeff :: "matrix \<Rightarrow> error + (scalar \<times> nat \<times> nat)" where
  "maxCoeff M =
     (if rows M = 0 \<or> cols M = 0 then Inl EigenAssert
      else Inr (foldl (\<lambda>(res, r, c) (i, j).
                        if sless res (coeff M i j) then (coeff M i j, i, j) else (res, r, c))
                  (coeff M 0 0, 0, 0) (tl (visitOrder M))))"

text \<open>\<open>M.norm()\<close>: the square root of the sum of the squared coefficients.\<close>

definition norm_mat :: "matrix \<Rightarrow> scalar" where
  "norm_mat M = ssqrt (ssum (map (\<lambda>(i, j). smul (coeff M i j) (coeff M i j)) (visitOrder M)))"

text \<open>\<open>M.col(k) = V\<close> and \<open>M.row(k) = V\<close>\<close>

definition setCol :: "matrix \<Rightarrow> nat \<Rightarrow> matrix \<Rightarrow> error + matrix" where
  "setCol M k V =
     (if k < cols M \<and> rows V = rows M \<and> cols V = 1
      then Inr (M\<lparr>coeff := (\<lambda>i j. if j = k then coeff V i 0 else coeff M i j)\<rparr>)
      else Inl EigenAssert)"

definition setRow :: "matrix \<Rightarrow> nat \<Rightarrow> matrix \<Rightarrow> error + matrix" where
  "setRow M k V =
     (if k < rows M \<and> cols V = cols M \<and> rows V = 1
      then Inr (M\<lparr>coeff := (\<lambda>i j. if i = k then coeff V 0 j else coeff M i j)\<rparr>)
      else Inl EigenAssert)"

text \<open>
  The growth step of the factors: the old contents are copied into the left columns
  (of A) or the top rows (of B) of a zeroed matrix that is \<open>resizeThreshold\<close> wider
  (taller).
\<close>

definition growCols :: "matrix \<Rightarrow> nat \<Rightarrow> matrix" where
  "growCols M n =
     \<lparr>rows = rows M, cols = cols M + n,
      coeff = (\<lambda>i j. if j < cols M then coeff M i j else Fin 0)\<rparr>"

definition growRows :: "matrix \<Rightarrow> nat \<Rightarrow> matrix" where
  "growRows M n =
     \<lparr>rows = rows M + n, cols = cols M,
      coeff = (\<lambda>i j. if i < rows M then coeff M i j else Fin 0)\<rparr>"

text \<open>
  \<open>((M - M).array() == (M - M).array()).all()\<close>: the difference of a finite entry with
  itself is zero and equal to itself; that of an infinite or NaN entry is NaN and is
  not. On a matrix with no entry \<open>all()\<close> is true.
\<close>

definition selfDifferenceEqual :: "matrix \<Rightarrow> bool" where
  "selfDifferenceEqual M =
     list_all (\<lambda>(i, j). seq (sminus (coeff M i j) (coeff M i j))
                             (sminus (coeff M i j) (coeff M i j)))
       (visitOrder M)"

definition allFinite :: "matrix \<Rightarrow> bool" where
  "allFinite M = list_all (\<lambda>(i, j). isFinite (coeff M i j)) (visitOrder M)"

section \<open>Index arithmetic\<close>

text \<open>
  \<open>std::size_t\<close> is a 64-bit unsigned integer: a natural number below \<open>2 ^ 64\<close>, with
  subtraction and increment wrapping around. The wrap-around is written out where the
  source subtracts (the local offsets, the widths, the count of the sampler, the test
  before the truncation) and in the scan of the sampler; the other sums (\<open>row + 1\<close>,
  \<open>rankCount++\<close>, the loop counter \<open>i\<close>, which the source declares as \<open>int\<close>) are
  bounded by the ranges and the widths of the node and are written as sums of naturals.
\<close>

definition sizeSub :: "nat \<Rightarrow> nat \<Rightarrow> nat" where
  "sizeSub a b = nat ((int a - int b) mod 2 ^ 64)"

definition sizeInc :: "nat \<Rightarrow> nat" where
  "sizeInc a = (a + 1) mod 2 ^ 64"

section \<open>Cluster ranges, block nodes and the data accessor\<close>

text \<open>
  An \<open>IndexRangeType\<close> is the pair \<open>(range[0], range[1])\<close> of a half-open range. A
  block cluster tree node carries the index ranges of its row and column clusters and
  the admissibility flag.
\<close>

type_synonym indexRange = "nat \<times> nat"

record blockClusterTreeNode =
  rowClusterRange :: indexRange
  columnClusterRange :: indexRange
  admissible :: bool

text \<open>
  Modelled from the spec: \<open>getBlockClusterTreeNodeDimensions\<close>, whose definition is
  not among the sources, yields the two cluster ranges of the node and their widths
  as the numbers of rows and columns of the block.
\<close>

definition numberOfRows :: "blockClusterTreeNode \<Rightarrow> nat" where
  "numberOfRows node = sizeSub (snd (rowClusterRange node)) (fst (rowClusterRange node))"

definition numberOfColumns :: "blockClusterTreeNode \<Rightarrow> nat" where
  "numberOfColumns node =
     sizeSub (snd (columnClusterRange node)) (fst (columnClusterRange node))"

text \<open>
  Modelled from the spec: the data accessor, whose definition is not among the sources
  (\<open>Accessor.evaluate(rowRange, colRange, node)\<close> gives the dense matrix of the exact
  kernel values). The kernel is a function from a global row and column index to the
  entry; \<open>computeMatrixBlock\<close> fills a matrix of the shape of the two ranges with it.
  Failures of the accessor itself are outside the model.
\<close>

type_synonym dataAccessor = "nat \<Rightarrow> nat \<Rightarrow> scalar"

definition computeMatrixBlock :: "dataAccessor \<Rightarrow> indexRange \<Rightarrow> indexRange \<Rightarrow> matrix" where
  "computeMatrixBlock acc rowIndexRange columnIndexRange =
     \<lparr>rows = sizeSub (snd rowIndexRange) (fst rowIndexRange),
      cols = sizeSub (snd columnIndexRange) (fst columnIndexRange),
      coeff = (\<lambda>i j. acc (fst rowIndexRange + i) (fst columnIndexRange + j))\<rparr>"

section \<open>Block data\<close>

datatype hMatrixData = Dense (denseMatrix: matrix) | LowRank (factorA: matrix) (factorB: matrix)

text \<open>
  Modelled from the spec: the dense compressor, whose definition is not among the
  sources, evaluates the full block through the accessor and stores it verbatim as
  dense data.
\<close>

definition denseCompressBlock :: "dataAccessor \<Rightarrow> blockClusterTreeNode \<Rightarrow> hMatrixData" where
  "denseCompressBlock acc node =
     Dense (computeMatrixBlock acc (rowClusterRange node) (columnClusterRange node))"

text \<open>
  Modelled from the spec: \<open>HMatrixLowRankData::frobeniusNorm\<close>, whose definition is not
  among the sources, is the Frobenius norm of the approximation \<open>A * B\<close> that the two
  factors hold.
\<close>

definition frobeniusNorm :: "matrix \<Rightarrow> matrix \<Rightarrow> error + scalar" where
  "frobeniusNorm A B = (case mprod A B of Inl e \<Rightarrow> Inl e | Inr P \<Rightarrow> Inr (norm_mat P))"

section \<open>The residual evaluator\<close>

text \<open>
  \<open>evaluateMatMinusLowRank\<close>: the accessor's block over the two index ranges, minus the
  product of a block of A and a block of B. The offsets into the factors are the
  indices relative to the start of the node's cluster ranges. The four arguments of
  each \<open>block\<close> call are those of the source, in its order.
\<close>

definition evaluateMatMinusLowRank ::
  "dataAccessor \<Rightarrow> blockClusterTreeNode \<Rightarrow> indexRange \<Rightarrow> indexRange \<Rightarrow> matrix \<Rightarrow> matrix
     \<Rightarrow> error + matrix" where
  "evaluateMatMinusLowRank acc node rowIndexRange columnIndexRange A B =
     (let data = computeMatrixBlock acc rowIndexRange columnIndexRange;
          rowStart = sizeSub (fst rowIndexRange) (fst (rowClusterRange node));
          rowEnd = sizeSub (snd rowIndexRange) (fst (rowClusterRange node));
          colStart = sizeSub (fst columnIndexRange) (fst (columnClusterRange node));
          colEnd = sizeSub (snd columnIndexRange) (fst (columnClusterRange node))
      in case block A rowStart 0 (sizeSub rowEnd rowStart) (cols A) of
           Inl e \<Rightarrow> Inl e
         | Inr Ablock \<Rightarrow>
             (case block B 0 colStart (sizeSub colEnd colStart) (rows B) of
                Inl e \<Rightarrow> Inl e
              | Inr Bblock \<Rightarrow>
                  (case mprod Ablock Bblock of
                     Inl e \<Rightarrow> Inl e
                   | Inr P \<Rightarrow> msub data P)))"

section \<open>The random pivot sampler\<close>

text \<open>
  \<open>randomIndex\<close> draws from a function-local \<open>static std::random_device\<close>: one
  generator for the whole process, shared by every call. Its state is threaded through
  the model explicitly. A \<open>distribution\<close> stands for
  \<open>std::uniform_int_distribution<std::size_t>(0, b)\<close> applied to the generator: from
  the generator's state and the upper bound \<open>b\<close> it gives the number drawn and the
  generator's next state.
\<close>

type_synonym 'g distribution = "'g \<Rightarrow> nat \<Rightarrow> nat \<times> 'g"

text \<open>
  The scan that turns the random position into an index not used before. The loop of
  the source need not end (with \<open>ind = 2 ^ 64 - 1\<close> its condition never fails), so not
  returning is the value \<open>None\<close>.
\<close>

partial_function (option) scanUnused :: "nat fset \<Rightarrow> nat \<Rightarrow> nat \<Rightarrow> nat \<Rightarrow> nat option" where
  "scanUnused previousIndices ind newIndex count =
     (if count \<le> ind then
        (if newIndex |\<notin>| previousIndices then
           (if sizeInc count \<le> ind
            then scanUnused previousIndices ind (sizeInc newIndex) (sizeInc count)
            else scanUnused previousIndices ind newIndex (sizeInc count))
         else scanUnused previousIndices ind (sizeInc newIndex) count)
      else Some newIndex)"

definition randomIndex ::
  "'g distribution \<Rightarrow> indexRange \<Rightarrow> nat fset \<Rightarrow> 'g \<Rightarrow> (nat \<times> nat fset \<times> 'g) option" where
  "randomIndex draw rng previousIndices g =
     (let numberOfPossibleIndices =
            sizeSub (sizeSub (snd rng) (fst rng)) (fcard previousIndices);
          (ind, g') = draw g (sizeSub numberOfPossibleIndices 1)
      in case scanUnused previousIndices ind (fst rng) 0 of
           None \<Rightarrow> None
         | Some newIndex \<Rightarrow> Some (newIndex, finsert newIndex previousIndices, g'))"

section \<open>The ACA compressor\<close>

record config =
  eps :: scalar
  maxRank :: nat
  resizeThreshold :: nat

text \<open>
  The variables of \<open>compressBlock\<close> that live across the iterations of its loop: the
  two factors (references into the caller's block data), the set of the row indices
  already drawn, the rank count and the shared generator. The set
  \<open>previousColumnIndices\<close> of the source is declared and never used; it is left out.
\<close>

record 'g acaState =
  A :: matrix
  B :: matrix
  previousRowIndices :: "nat fset"
  rankCount :: nat
  generator :: 'g

text \<open>How one pass through the loop body ends.\<close>

datatype 'g outcome = Continue "'g acaState" | Break "'g acaState" | Abort error "'g acaState"

definition iterationLimit :: "config \<Rightarrow> blockClusterTreeNode \<Rightarrow> nat" where
  "iterationLimit cfg node = min (maxRank cfg) (min (numberOfRows node) (numberOfColumns node))"

text \<open>The numerical floor \<open>1E-12\<close> of the pivot test.\<close>

definition pivotFloor :: scalar where
  "pivotFloor = Fin (1 / 10 ^ 12)"

text \<open>
  The loop body from the evaluation of the pivot column to its end: lines 532 to 561.
  \<open>newRow\<close> is the residual row already divided by the pivot, \<open>maxColInd\<close> the local
  column of the pivot (an index into the row, never negative: the \<open>numeric_cast\<close> to
  \<open>std::size_t\<close> does not throw). The norm of the accumulated approximation is taken
  before the factors grow and before the new column and row are stored.
\<close>

definition acaUpdate ::
  "config \<Rightarrow> dataAccessor \<Rightarrow> blockClusterTreeNode \<Rightarrow> matrix \<Rightarrow> nat \<Rightarrow> 'g acaState \<Rightarrow> 'g outcome" where
  "acaUpdate cfg acc node newRow maxColInd st =
     (let column = maxColInd + fst (columnClusterRange node) in
      case evaluateMatMinusLowRank acc node (rowClusterRange node) (column, column + 1)
             (A st) (B st) of
        Inl e \<Rightarrow> Abort e st
      | Inr newCol \<Rightarrow>
          (case frobeniusNorm (A st) (B st) of
             Inl e \<Rightarrow> Abort e st
           | Inr frobeniousNorm \<Rightarrow>
               (let st1 = (if rankCount st = cols (A st)
                           then st\<lparr>A := growCols (A st) (resizeThreshold cfg),
                                   B := growRows (B st) (resizeThreshold cfg)\<rparr>
                           else st)
                in case setCol (A st1) (rankCount st1) newCol of
                     Inl e \<Rightarrow> Abort e st1
                   | Inr A' \<Rightarrow>
                       (case setRow (B st1) (rankCount st1) newRow of
                          Inl e \<Rightarrow> Abort e (st1\<lparr>A := A'\<rparr>)
                        | Inr B' \<Rightarrow>
                            (let st2 = st1\<lparr>A := A', B := B', rankCount := rankCount st1 + 1\<rparr>
                             in if sless (smul (norm_mat newCol) (norm_mat newRow))
                                         (smul (eps cfg) frobeniousNorm)
                                then Break st2 else Continue st2)))))"

text \<open>
  The loop body after the row index has been drawn: lines 505 to 561. The residual
  row is evaluated, its entry of largest absolute value is located, and a row whose
  largest absolute value is below the floor is skipped.
\<close>

definition acaTrial ::
  "config \<Rightarrow> dataAccessor \<Rightarrow> blockClusterTreeNode \<Rightarrow> nat \<Rightarrow> 'g acaState \<Rightarrow> 'g outcome" where
  "acaTrial cfg acc node row st =
     (case evaluateMatMinusLowRank acc node (row, row + 1) (columnClusterRange node)
             (A st) (B st) of
        Inl e \<Rightarrow> Abort e st
      | Inr newRow \<Rightarrow>
          (case maxCoeff (cwiseAbs newRow) of
             Inl e \<Rightarrow> Abort e st
           | Inr (val, maxRowInd, maxColInd) \<Rightarrow>
               if sless val pivotFloor then Continue st
               else acaUpdate cfg acc node
                      (divScalar newRow (coeff newRow 0 maxColInd)) maxColInd st))"

text \<open>The whole loop body: draw a row index, then run the trial on it.\<close>

definition acaBody ::
  "config \<Rightarrow> dataAccessor \<Rightarrow> 'g distribution \<Rightarrow> blockClusterTreeNode \<Rightarrow> 'g acaState
     \<Rightarrow> 'g outcome option" where
  "acaBody cfg acc draw node st =
     (case randomIndex draw (rowClusterRange node) (previousRowIndices st) (generator st) of
        None \<Rightarrow> None
      | Some (row, used, g') \<Rightarrow>
          Some (acaTrial cfg acc node row (st\<lparr>previousRowIndices := used, generator := g'\<rparr>)))"

text \<open>
  The loop \<open>for (int i = 0; i < iterationLimit; ++i)\<close>. It ends with the state
  (\<open>Inr\<close>) when the limit is reached or the body breaks, and with the error and the
  state reached (\<open>Inl\<close>) when the body stops on an error.
\<close>

function acaLoop ::
  "config \<Rightarrow> dataAccessor \<Rightarrow> 'g distribution \<Rightarrow> blockClusterTreeNode \<Rightarrow> nat \<Rightarrow> 'g acaState
     \<Rightarrow> (error \<times> 'g acaState + 'g acaState) option" where
  "acaLoop cfg acc draw node i st =
     (if i < iterationLimit cfg node then
        (case acaBody cfg acc draw node st of
           None \<Rightarrow> None
         | Some (Continue st') \<Rightarrow> acaLoop cfg acc draw node (i + 1) st'
         | Some (Break st') \<Rightarrow> Some (Inr st')
         | Some (Abort e st') \<Rightarrow> Some (Inl (e, st')))
      else Some (Inr st))"
  by pat_completeness auto
termination
  by (relation "measure (\<lambda>(cfg, acc, draw, node, i, st). iterationLimit cfg node - i)") auto

text \<open>
  The state before the loop: the factors resized to the width \<open>resizeThreshold\<close> and
  zeroed, no row index used, rank count zero.
\<close>

definition initialState :: "config \<Rightarrow> blockClusterTreeNode \<Rightarrow> 'g \<Rightarrow> 'g acaState" where
  "initialState cfg node g =
     \<lparr>A = zeroMatrix (numberOfRows node) (resizeThreshold cfg),
      B = zeroMatrix (resizeThreshold cfg) (numberOfColumns node),
      previousRowIndices = {||}, rankCount = 0, generator = g\<rparr>"

text \<open>Lines 563 to 566: the factors are cut down to \<open>rankCount\<close> columns and rows.\<close>

definition truncateFactors :: "'g acaState \<Rightarrow> error \<times> 'g acaState + 'g acaState" where
  "truncateFactors st =
     (if 0 < sizeSub (cols (A st)) (rankCount st) then
        (case block (A st) 0 0 (rows (A st)) (rankCount st) of
           Inl e \<Rightarrow> Inl (e, st)
         | Inr A' \<Rightarrow>
             (case block (B st) 0 0 (rankCount st) (cols (B st)) of
                Inl e \<Rightarrow> Inl (e, st\<lparr>A := A'\<rparr>)
              | Inr B' \<Rightarrow> Inr (st\<lparr>A := A', B := B'\<rparr>)))
      else Inr st)"

text \<open>
  Lines 567 to 570: the condition under which \<open>"NaN detected."\<close> is thrown,
  \<open>!(A test) || (B test)\<close>, with the short-circuit evaluation of \<open>||\<close>.
\<close>

definition nanDetected :: "matrix \<Rightarrow> matrix \<Rightarrow> bool" where
  "nanDetected A' B' = (if selfDifferenceEqual A' then selfDifferenceEqual B' else True)"

text \<open>
  What the caller has after a call of \<open>compressBlock\<close>: the block data its pointer
  \<open>hMatrixData\<close> refers to, the error the call stopped on (if any), and the state of
  the shared generator.
\<close>

record 'g callResult =
  hMatrixData :: hMatrixData
  raised :: "error option"
  generatorAfter :: 'g

text \<open>
  \<open>compressBlock\<close>. For an admissible node the caller's pointer is reset to fresh
  low-rank data before the loop, and \<open>A\<close> and \<open>B\<close> refer into that data: whatever
  the factors hold when the call ends, normally or not, is what the caller's pointer
  refers to. A call that stops on a failed assertion is recorded with the factors as
  they were at that point. \<open>None\<close> is a call that does not return.
\<close>

definition compressBlock ::
  "config \<Rightarrow> dataAccessor \<Rightarrow> 'g distribution \<Rightarrow> blockClusterTreeNode \<Rightarrow> 'g
     \<Rightarrow> 'g callResult option" where
  "compressBlock cfg acc draw node g =
     (if \<not> admissible node
      then Some \<lparr>hMatrixData = denseCompressBlock acc node, raised = None, generatorAfter = g\<rparr>
      else
        (case acaLoop cfg acc draw node 0 (initialState cfg node g) of
           None \<Rightarrow> None
         | Some (Inl (e, st)) \<Rightarrow>
             Some \<lparr>hMatrixData = LowRank (A st) (B st), raised = Some e,
                   generatorAfter = generator st\<rparr>
         | Some (Inr st) \<Rightarrow>
             (case truncateFactors st of
                Inl (e, st') \<Rightarrow>
                  Some \<lparr>hMatrixData = LowRank (A st') (B st'), raised = Some e,
                        generatorAfter = generator st'\<rparr>
              | Inr st' \<Rightarrow>
                  Some \<lparr>hMatrixData = LowRank (A st') (B st'),
                        raised = (if nanDetected (A st') (B st') then Some NaNDetected else None),
                        generatorAfter = generator st'\<rparr>)))"

text \<open>
  The states in which the loop of one call stands at the head of an iteration: the
  initial state at iteration 0, and the state a completed body leaves at the next
  iteration, as long as the loop condition held.
\<close>

inductive loopReaches ::
  "config \<Rightarrow> dataAccessor \<Rightarrow> 'g distribution \<Rightarrow> blockClusterTreeNode \<Rightarrow> 'g \<Rightarrow> nat
     \<Rightarrow> 'g acaState \<Rightarrow> bool"
  for cfg acc draw node g where
  start: "loopReaches cfg acc draw node g 0 (initialState cfg node g)"
| step: "loopReaches cfg acc draw node g i st \<Longrightarrow> i < iterationLimit cfg node \<Longrightarrow>
         acaBody cfg acc draw node st = Some (Continue st') \<Longrightarrow>
         loopReaches cfg acc draw node g (i + 1) st'"

section \<open>Notions used to state the properties\<close>

text \<open>The indices of a range that are not in the used set, in ascending order.\<close>

definition unusedIndices :: "indexRange \<Rightarrow> nat fset \<Rightarrow> nat list" where
  "unusedIndices rng previousIndices =
     filter (\<lambda>x. x |\<notin>| previousIndices) [fst rng..<snd rng]"

text \<open>
  The cluster ranges of a node are pairs of \<open>std::size_t\<close> values with the begin not
  after the end.
\<close>

definition validRange :: "indexRange \<Rightarrow> bool" where
  "validRange rng = (fst rng \<le> snd rng \<and> snd rng < 2 ^ 64)"

definition validNode :: "blockClusterTreeNode \<Rightarrow> bool" where
  "validNode node = (validRange (rowClusterRange node) \<and> validRange (columnClusterRange node))"

text \<open>The state in which a pass through the loop body ends.\<close>

fun stateOf :: "'g outcome \<Rightarrow> 'g acaState" where
  "stateOf (Continue st) = st"
| "stateOf (Break st) = st"
| "stateOf (Abort e st) = st"

text \<open>
  The shape of the factors at iteration \<open>i\<close>: at most \<open>i\<close> terms are stored, the
  factors are at least as wide as the rank count and of equal width, and the width is
  at most \<open>i + 1\<close> growth chunks.
\<close>

definition shapeInvariant :: "config \<Rightarrow> nat \<Rightarrow> 'g acaState \<Rightarrow> bool" where
  "shapeInvariant cfg i st =
     (rankCount st \<le> i \<and> rankCount st \<le> cols (A st) \<and> rows (B st) = cols (A st)
      \<and> cols (A st) \<le> resizeThreshold cfg * (i + 1))"

text \<open>No term is stored and both factors are zero.\<close>

definition zeroFactors :: "'g acaState \<Rightarrow> bool" where
  "zeroFactors st =
     (rankCount st = 0 \<and> coeff (A st) = (\<lambda>i j. Fin 0) \<and> coeff (B st) = (\<lambda>i j. Fin 0))"

text \<open>A state of the loop and an outcome of its body without the generator.\<close>

definition forget :: "'g acaState \<Rightarrow> unit acaState" where
  "forget st =
     \<lparr>A = A st, B = B st, previousRowIndices = previousRowIndices st,
      rankCount = rankCount st, generator = ()\<rparr>"

fun forgetOutcome :: "'g outcome \<Rightarrow> unit outcome" where
  "forgetOutcome (Continue st) = Continue (forget st)"
| "forgetOutcome (Break st) = Break (forget st)"
| "forgetOutcome (Abort e st) = Abort e (forget st)"

text \<open>The result of the loop without the generator.\<close>

fun forgetResult :: "error \<times> 'g acaState + 'g acaState \<Rightarrow> error \<times> unit acaState + unit acaState" where
  "forgetResult (Inl (e, st)) = Inl (e, forget st)"
| "forgetResult (Inr st) = Inr (forget st)"

section \<open>The residual as the specification words it\<close>

text \<open>
  The specification's residual evaluator: the accessor's values over the sub-range,
  minus \<open>A[localRows, :] * B[:, localCols]\<close>, the local offsets being the global
  indices minus the base index of the enclosing cluster. The block of B has all the
  rows of B and the local columns of the sub-range.
\<close>

definition residualOfSpec ::
  "dataAccessor \<Rightarrow> blockClusterTreeNode \<Rightarrow> indexRange \<Rightarrow> indexRange \<Rightarrow> matrix \<Rightarrow> matrix
     \<Rightarrow> error + matrix" where
  "residualOfSpec acc node rowIndexRange columnIndexRange Am Bm =
     (let data = computeMatrixBlock acc rowIndexRange columnIndexRange;
          rowStart = sizeSub (fst rowIndexRange) (fst (rowClusterRange node));
          rowEnd = sizeSub (snd rowIndexRange) (fst (rowClusterRange node));
          colStart = sizeSub (fst columnIndexRange) (fst (columnClusterRange node));
          colEnd = sizeSub (snd columnIndexRange) (fst (columnClusterRange node))
      in case block Am rowStart 0 (sizeSub rowEnd rowStart) (cols Am) of
           Inl e \<Rightarrow> Inl e
         | Inr Ablock \<Rightarrow>
             (case block Bm 0 colStart (rows Bm) (sizeSub colEnd colStart) of
                Inl e \<Rightarrow> Inl e
              | Inr Bblock \<Rightarrow>
                  (case mprod Ablock Bblock of
                     Inl e \<Rightarrow> Inl e
                   | Inr P \<Rightarrow> msub data P)))"

section \<open>The loop as the specification words it\<close>





section \<open>Inputs of the examples\<close>

text \<open>
  A generator whose state counts the numbers drawn so far; the number drawn at count
  \<open>g\<close> for the interval \<open>[0, b]\<close> is \<open>g mod (b + 1)\<close>.
\<close>

definition counterDraw :: "nat distribution" where
  "counterDraw g b = (g mod (b + 1), g + 1)"

text \<open>The same generator with its count starting at \<open>k\<close>.\<close>

definition offsetDraw :: "nat \<Rightarrow> nat distribution" where
  "offsetDraw k g b = ((g - k) mod (b + 1), g + 1)"

definition blockNode :: "nat \<Rightarrow> nat \<Rightarrow> bool \<Rightarrow> blockClusterTreeNode" where
  "blockNode r c adm =
     \<lparr>rowClusterRange = (0, r), columnClusterRange = (0, c), admissible = adm\<rparr>"

definition unitConfig :: config where
  "unitConfig = \<lparr>eps = Fin (1 / 10 ^ 4), maxRank = 10, resizeThreshold = 1\<rparr>"

definition pairConfig :: config where
  "pairConfig = \<lparr>eps = Fin (1 / 10 ^ 4), maxRank = 10, resizeThreshold = 2\<rparr>"

definition constantKernel :: "scalar \<Rightarrow> dataAccessor" where
  "constantKernel v = (\<lambda>i j. v)"

text \<open>The kernel of a block whose first row is 1 and whose other rows are 0.\<close>

definition firstRowKernel :: dataAccessor where
  "firstRowKernel = (\<lambda>i j. if i = 0 then Fin 1 else Fin 0)"


section \<open>Evaluation of the model\<close>

declare acaLoop.simps [simp del]

lemmas eigen_defs = zeroMatrix_def block_def mprod_def msub_def ssum_def sminus_def
  divScalar_def cwiseAbs_def visitOrder_def maxCoeff_def norm_mat_def setCol_def setRow_def
  growCols_def growRows_def selfDifferenceEqual_def allFinite_def

lemmas aca_defs = compressBlock_def initialState_def numberOfRows_def numberOfColumns_def
  sizeSub_def sizeInc_def iterationLimit_def acaLoop.simps acaBody_def randomIndex_def
  scanUnused.simps
  acaTrial_def acaUpdate_def evaluateMatMinusLowRank_def computeMatrixBlock_def
  frobeniusNorm_def pivotFloor_def truncateFactors_def nanDetected_def Let_def
  fcard_fempty fcard_finsert_if

lemmas example_defs = counterDraw_def offsetDraw_def blockNode_def unitConfig_def pairConfig_def
  constantKernel_def firstRowKernel_def

lemma upt_0_2: "[0..<2] = [0, Suc 0]"
  by (simp add: numeral_2_eq_2)





section \<open>The finiteness check\<close>

lemma seq_self_difference: "seq (sminus x x) (sminus x x) = isFinite x"
  by (cases x) (simp_all add: sminus_def)

lemma selfDifferenceEqual_allFinite: "selfDifferenceEqual M = allFinite M"
  by (simp add: selfDifferenceEqual_def allFinite_def seq_self_difference)

text \<open>
  The condition of the throw, in terms of the entries: an entry of A is not finite, or
  every entry of B is finite.
\<close>

lemma nanDetected_iff: "nanDetected X Y = (\<not> allFinite X \<or> allFinite Y)"
  by (simp add: nanDetected_def selfDifferenceEqual_allFinite)

text \<open>
  C1. The claim: \<open>compressBlock\<close> raises the numerical error if and only if some
  entry of A or B is NaN or infinite, and completes without raising when the factors
  are entirely finite. On the admissible one by one block with the entry 1, resize
  threshold 1, the call ends with both factors entirely finite and raises
  \<open>NaNDetected\<close>: the second disjunct of the test lacks its negation.
\<close>

theorem compressBlock_raises_on_finite_factors:
  "map_option (\<lambda>r. (raised r, allFinite (factorA (hMatrixData r)),
                      allFinite (factorB (hMatrixData r))))
     (compressBlock unitConfig (constantKernel (Fin 1)) counterDraw (blockNode 1 1 True) 0)
   = Some (Some NaNDetected, True, True)"
  by (simp add: example_defs aca_defs eigen_defs)

section \<open>The residual evaluator on a block with two columns\<close>

text \<open>
  The two evaluators differ in the block of B only: the source gives the width of the
  column sub-range as the number of rows of the block and the number of rows of B as
  its number of columns. They agree when the two numbers are equal.
\<close>

lemma evaluateMatMinusLowRank_agrees_when_square:
  assumes "sizeSub (sizeSub (snd columnIndexRange) (fst (columnClusterRange node)))
                   (sizeSub (fst columnIndexRange) (fst (columnClusterRange node))) = rows Y"
  shows "evaluateMatMinusLowRank acc node rowIndexRange columnIndexRange X Y
         = residualOfSpec acc node rowIndexRange columnIndexRange X Y"
  unfolding evaluateMatMinusLowRank_def residualOfSpec_def Let_def assms ..

text \<open>
  C2. The claim: for every row or column sub-range the residual evaluator returns the
  accessor's values minus \<open>A[localRows, :] * B[:, localCols]\<close>. On the block of one
  row and two columns, with the zero factors of width 1 that \<open>compressBlock\<close> starts
  from, the evaluation of the row stops on Eigen's bounds check: the source asks B,
  which has one row and two columns, for a block of two rows and one column. The
  residual of the specification is defined there, and is the accessor's row.
\<close>

theorem evaluateMatMinusLowRank_row_of_two_columns:
  "evaluateMatMinusLowRank (constantKernel (Fin 1)) (blockNode 1 2 True) (0, 1) (0, 2)
     (zeroMatrix 1 1) (zeroMatrix 1 2) = Inl EigenAssert
   \<and> map_sum id (\<lambda>M. (rows M, cols M, coeff M 0 0, coeff M 0 1))
       (residualOfSpec (constantKernel (Fin 1)) (blockNode 1 2 True) (0, 1) (0, 2)
          (zeroMatrix 1 1) (zeroMatrix 1 2))
     = Inr (1, 2, Fin 1, Fin 1)"
  by (simp add: residualOfSpec_def example_defs aca_defs eigen_defs)

section \<open>Inadmissible nodes\<close>

text \<open>
  C6. For every node whose admissible flag is false, \<open>compressBlock\<close> delegates to the
  dense compressor and returns: the result is the dense block of the accessor's values
  over the full row and column range of the node, no error is raised, and no part of the
  loop has run (the result depends neither on the configuration nor on the generator,
  whose state is left as it was).
\<close>

theorem inadmissible_block_is_dense:
  assumes "\<not> admissible node"
  shows "compressBlock cfg acc draw node g =
           Some \<lparr>hMatrixData =
                   Dense (computeMatrixBlock acc (rowClusterRange node) (columnClusterRange node)),
                 raised = None, generatorAfter = g\<rparr>"
  using assms by (simp add: compressBlock_def denseCompressBlock_def)

theorem inadmissible_block_is_dense_witness:
  "\<not> admissible (blockNode 2 3 False) \<and>
   compressBlock unitConfig firstRowKernel counterDraw (blockNode 2 3 False) (5::nat) =
     Some \<lparr>hMatrixData = Dense (computeMatrixBlock firstRowKernel (0, 2) (0, 3)),
           raised = None, generatorAfter = 5\<rparr>"
  using inadmissible_block_is_dense
          [of "blockNode 2 3 False" unitConfig firstRowKernel counterDraw "5::nat"]
  by (simp add: blockNode_def)

section \<open>The random pivot sampler returns an unused index of the range\<close>

lemma sizeInc_small: "a < 2 ^ 64 - 1 \<Longrightarrow> sizeInc a = a + 1"
  by (simp add: sizeInc_def)

lemma sizeSub_le: "b \<le> a \<Longrightarrow> a < 2 ^ 64 \<Longrightarrow> sizeSub a b = a - b"
  unfolding sizeSub_def by (simp add: nat_diff_distrib' of_nat_diff)

lemma scanUnused_nth:
  assumes "hi < 2 ^ 64" "ind < 2 ^ 64 - 1"
  shows "count \<le> ind \<Longrightarrow> ind - count < length (filter (\<lambda>x. x |\<notin>| prev) [n..<hi]) \<Longrightarrow>
     scanUnused prev ind n count = Some (filter (\<lambda>x. x |\<notin>| prev) [n..<hi] ! (ind - count))"
proof (induction "hi - n" arbitrary: n count rule: less_induct)
  case less
  let ?U = "\<lambda>m. filter (\<lambda>x. x |\<notin>| prev) [m..<hi]"
  from less.prems have nhi: "n < hi" by (cases "n < hi") auto
  then have upt: "[n..<hi] = n # [Suc n..<hi]" by (simp add: upt_conv_Cons)
  have incn: "sizeInc n = Suc n" using nhi assms(1) by (simp add: sizeInc_def)
  have incc: "sizeInc count = Suc count" using less.prems(1) assms(2) by (simp add: sizeInc_def)
  show ?case
  proof (cases "n |\<in>| prev")
    case True
    then have U: "?U n = ?U (Suc n)" by (simp add: upt)
    have "scanUnused prev ind (Suc n) count = Some (?U (Suc n) ! (ind - count))"
      using less.hyps[of "Suc n" count] less.prems nhi U by simp
    then show ?thesis
      using True less.prems(1) U by (subst scanUnused.simps) (simp add: incn)
  next
    case False
    then have U: "?U n = n # ?U (Suc n)" by (simp add: upt)
    show ?thesis
    proof (cases "Suc count \<le> ind")
      case True
      have "scanUnused prev ind (Suc n) (Suc count) = Some (?U (Suc n) ! (ind - Suc count))"
        using less.hyps[of "Suc n" "Suc count"] less.prems nhi U True by simp
      moreover have "?U n ! (ind - count) = ?U (Suc n) ! (ind - Suc count)"
        using True U by (simp add: Suc_diff_le)
      ultimately show ?thesis
        using False True less.prems(1) by (subst scanUnused.simps) (simp add: incn incc)
    next
      case nle: False
      with less.prems(1) have eq: "count = ind" by simp
      have "scanUnused prev ind n (Suc ind) = Some n"
        by (subst scanUnused.simps) simp
      moreover have "sizeInc ind = Suc ind" using assms(2) by (simp add: sizeInc_def)
      ultimately show ?thesis
        using False U eq by (subst scanUnused.simps) simp
    qed
  qed
qed

lemma length_unusedIndices:
  assumes "fset prev \<subseteq> {fst rng..<snd rng}"
  shows "length (unusedIndices rng prev) = snd rng - fst rng - fcard prev"
proof -
  have "distinct (unusedIndices rng prev)"
    by (simp add: unusedIndices_def)
  then have "length (unusedIndices rng prev) = card (set (unusedIndices rng prev))"
    by (rule distinct_card[symmetric])
  also have "set (unusedIndices rng prev) = {fst rng..<snd rng} - fset prev"
    by (auto simp: unusedIndices_def)
  also have "card \<dots> = card {fst rng..<snd rng} - card (fset prev)"
    using assms by (simp add: card_Diff_subset)
  finally show ?thesis by (simp add: fcard.rep_eq)
qed

lemma randomIndex_unused:
  assumes ne: "fst rng < snd rng"
    and hi: "snd rng < 2 ^ 64"
    and sub: "fset prev \<subseteq> {fst rng..<snd rng}"
    and free: "unusedIndices rng prev \<noteq> []"
    and bound: "fst (draw g (length (unusedIndices rng prev) - 1)) \<le> length (unusedIndices rng prev) - 1"
  shows "randomIndex draw rng prev g =
           Some (unusedIndices rng prev ! fst (draw g (length (unusedIndices rng prev) - 1)),
                 finsert (unusedIndices rng prev ! fst (draw g (length (unusedIndices rng prev) - 1))) prev,
                 snd (draw g (length (unusedIndices rng prev) - 1)))"
proof -
  let ?U = "unusedIndices rng prev"
  let ?ind = "fst (draw g (length ?U - 1))"
  have len: "length ?U = snd rng - fst rng - fcard prev"
    by (rule length_unusedIndices[OF sub])
  have pos: "0 < length ?U" using free by simp
  have cardle: "fcard prev \<le> snd rng - fst rng" using pos len by simp
  have n1: "sizeSub (snd rng) (fst rng) = snd rng - fst rng"
    using ne hi by (simp add: sizeSub_le)
  have n2: "sizeSub (snd rng - fst rng) (fcard prev) = length ?U"
    using cardle hi len by (simp add: sizeSub_le)
  have n3: "sizeSub (length ?U) (Suc 0) = length ?U - Suc 0"
    using pos hi len by (simp add: sizeSub_le)
  have indlt: "?ind < length ?U" using bound pos by linarith
  have "scanUnused prev ?ind (fst rng) 0 = Some (filter (\<lambda>x. x |\<notin>| prev) [fst rng..<snd rng] ! (?ind - 0))"
    using indlt hi len by (intro scanUnused_nth) (simp_all add: unusedIndices_def)
  then have "scanUnused prev ?ind (fst rng) 0 = Some (?U ! ?ind)"
    by (simp add: unusedIndices_def)
  then show ?thesis
    by (simp add: randomIndex_def n1 n2 n3 Let_def split_beta)
qed

lemma unusedIndices_nth:
  assumes "k < length (unusedIndices rng prev)"
  shows "fst rng \<le> unusedIndices rng prev ! k \<and> unusedIndices rng prev ! k < snd rng
         \<and> unusedIndices rng prev ! k |\<notin>| prev"
proof -
  have "unusedIndices rng prev ! k \<in> set (unusedIndices rng prev)"
    using assms by (rule nth_mem)
  then show ?thesis by (simp add: unusedIndices_def)
qed

lemma unusedIndices_nonempty:
  assumes "fst rng \<le> x" "x < snd rng" "x |\<notin>| prev"
  shows "unusedIndices rng prev \<noteq> []"
proof -
  have "x \<in> set (unusedIndices rng prev)" using assms by (simp add: unusedIndices_def)
  then show ?thesis by auto
qed

text \<open>What the scan returns, when it returns, whatever the arguments.\<close>

lemma scanUnused_result:
  assumes "scanUnused prev ind n count = Some y"
  shows "if count \<le> ind then y |\<notin>| prev else y = n"
proof (rule scanUnused.raw_induct
    [where P = "\<lambda>prev ind n count y. if count \<le> ind then y |\<notin>| prev else y = n", OF _ assms])
  fix scan :: "nat fset \<Rightarrow> nat \<Rightarrow> nat \<Rightarrow> nat \<Rightarrow> nat option" and prev ind n count y
  assume IH: "\<And>prev ind n count y. scan prev ind n count = Some y \<Longrightarrow>
                (if count \<le> ind then y |\<notin>| prev else y = n)"
  assume body: "(if count \<le> ind
      then if n |\<notin>| prev
           then if sizeInc count \<le> ind
                then scan prev ind (sizeInc n) (sizeInc count)
                else scan prev ind n (sizeInc count)
           else scan prev ind (sizeInc n) count
      else Some n) = Some y"
  show "if count \<le> ind then y |\<notin>| prev else y = n"
  proof (cases "count \<le> ind")
    case False
    with body show ?thesis by simp
  next
    case le: True
    show ?thesis
    proof (cases "n |\<in>| prev")
      case True
      with le body have "scan prev ind (sizeInc n) count = Some y" by simp
      from IH[OF this] le show ?thesis by simp
    next
      case False
      show ?thesis
      proof (cases "sizeInc count \<le> ind")
        case True
        with le False body have "scan prev ind (sizeInc n) (sizeInc count) = Some y" by simp
        from IH[OF this] True le show ?thesis by simp
      next
        case nle: False
        with le False body have "scan prev ind n (sizeInc count) = Some y" by simp
        from IH[OF this] nle have "y = n" by simp
        with False le show ?thesis by simp
      qed
    qed
  qed
qed

lemma randomIndex_fresh:
  assumes "randomIndex draw rng prev g = Some (row, used, g')"
  shows "row |\<notin>| prev \<and> used = finsert row prev"
proof -
  obtain ind where "scanUnused prev ind (fst rng) 0 = Some row" and u: "used = finsert row prev"
    using assms by (auto simp: randomIndex_def Let_def split: option.splits prod.splits)
  from scanUnused_result[OF this(1)] u show ?thesis by simp
qed

text \<open>The body of the loop changes the used set and the generator through the sampler only.\<close>

lemma acaUpdate_frame:
  "previousRowIndices (stateOf (acaUpdate cfg acc node newRow c st)) = previousRowIndices st
   \<and> generator (stateOf (acaUpdate cfg acc node newRow c st)) = generator st"
  by (simp add: acaUpdate_def Let_def split: sum.splits)

lemma acaTrial_frame:
  "previousRowIndices (stateOf (acaTrial cfg acc node row st)) = previousRowIndices st
   \<and> generator (stateOf (acaTrial cfg acc node row st)) = generator st"
  by (simp add: acaTrial_def acaUpdate_frame split: sum.splits prod.splits)

lemma acaBody_used:
  assumes "acaBody cfg acc draw node st = Some out"
  shows "\<exists>row used g'.
           randomIndex draw (rowClusterRange node) (previousRowIndices st) (generator st)
             = Some (row, used, g')
           \<and> previousRowIndices (stateOf out) = used \<and> generator (stateOf out) = g'"
  using assms by (auto simp: acaBody_def acaTrial_frame split: option.splits)

lemma randomIndex_finsert:
  assumes "randomIndex draw rng prev g = Some (row, used, g')"
  shows "used = finsert row prev"
  using assms by (auto simp: randomIndex_def Let_def split: option.splits prod.splits)

text \<open>
  C9. For every non-empty index range (of \<open>std::size_t\<close> values) and every set of used
  indices of the range that leaves at least one index unused, \<open>randomIndex\<close> draws an
  ordinal below the number of unused indices (the distribution yields a number in the
  interval it is given) and returns the unused index of that ordinal, counting the
  unused indices of the range in ascending order from 0: the index lies in the range,
  was not used before, and is inserted into the used set. The used set persists across
  the iterations of a call: every pass through the loop body, however it ends, leaves
  the set it found with one index inserted.
\<close>

theorem randomIndex_ordinal_th_unused:
  assumes "fst rng < snd rng" and "snd rng < 2 ^ 64"
    and "fset previousIndices \<subseteq> {fst rng..<snd rng}"
    and "\<exists>x. fst rng \<le> x \<and> x < snd rng \<and> x |\<notin>| previousIndices"
    and "\<And>b. fst (draw g b) \<le> b"
  shows "\<exists>ordinal newIndex g'.
           draw g (length (unusedIndices rng previousIndices) - 1) = (ordinal, g')
         \<and> ordinal < length (unusedIndices rng previousIndices)
         \<and> newIndex = unusedIndices rng previousIndices ! ordinal
         \<and> randomIndex draw rng previousIndices g
             = Some (newIndex, finsert newIndex previousIndices, g')
         \<and> fst rng \<le> newIndex \<and> newIndex < snd rng \<and> newIndex |\<notin>| previousIndices
         \<and> (\<forall>cfg acc node st out. acaBody cfg acc draw node st = Some out \<longrightarrow>
               (\<exists>row. previousRowIndices (stateOf out) = finsert row (previousRowIndices st)))"
proof -
  let ?U = "unusedIndices rng previousIndices"
  let ?d = "draw g (length ?U - 1)"
  have ne: "?U \<noteq> []" using assms(4) unusedIndices_nonempty by blast
  then have pos: "0 < length ?U" by simp
  have lt: "fst ?d < length ?U" using assms(5)[of "length ?U - 1"] pos by linarith
  have ri: "randomIndex draw rng previousIndices g
          = Some (?U ! fst ?d, finsert (?U ! fst ?d) previousIndices, snd ?d)"
    using assms(1,2,3) ne assms(5) by (rule randomIndex_unused)
  have persist: "\<forall>cfg acc node st out. acaBody cfg acc draw node st = Some out \<longrightarrow>
               (\<exists>row. previousRowIndices (stateOf out) = finsert row (previousRowIndices st))"
    using acaBody_used randomIndex_finsert by metis
  show ?thesis
    using lt ri unusedIndices_nth[OF lt] persist
    by (intro exI[of _ "fst ?d"] exI[of _ "?U ! fst ?d"] exI[of _ "snd ?d"]) simp
qed

theorem randomIndex_ordinal_th_unused_witness:
  "unusedIndices (0, 3) {|1|} = [0, 2] \<and>
   randomIndex counterDraw (0, 3) {|1|} 1 = Some (2, {|2, 1|}, 2)"
proof -
  have h3: "fset {|1::nat|} \<subseteq> {fst (0::nat, 3::nat)..<snd (0::nat, 3::nat)}" by simp
  have h4: "\<exists>x. fst (0::nat, 3::nat) \<le> x \<and> x < snd (0::nat, 3::nat) \<and> x |\<notin>| {|1::nat|}"
    by (rule exI[of _ 0]) simp
  have h5: "\<And>b. fst (counterDraw 1 b) \<le> b" by (simp add: counterDraw_def)
  have U: "unusedIndices (0, 3) {|1|} = [0, 2]"
    by (simp add: unusedIndices_def eval_nat_numeral)
  show ?thesis
    using randomIndex_ordinal_th_unused[of "(0, 3)" "{|1|}" counterDraw 1, OF _ _ h3 h4 h5] U
    by (auto simp: counterDraw_def)
qed

section \<open>The sampler inside the loop\<close>

lemma numberOfRows_valid: "validNode node \<Longrightarrow>
   numberOfRows node = snd (rowClusterRange node) - fst (rowClusterRange node)"
  by (simp add: validNode_def validRange_def numberOfRows_def sizeSub_le)

lemma iterationLimit_le_rows: "iterationLimit cfg node \<le> numberOfRows node"
  by (simp add: iterationLimit_def)

lemma randomIndex_in_loop:
  assumes valid: "validNode node"
    and draw: "\<And>g b. fst (draw g b) \<le> b"
    and sub: "fset prev \<subseteq> {fst (rowClusterRange node)..<snd (rowClusterRange node)}"
    and card: "fcard prev \<le> i"
    and lim: "i < iterationLimit cfg node"
  shows "unusedIndices (rowClusterRange node) prev \<noteq> [] \<and>
         randomIndex draw (rowClusterRange node) prev g
         = Some (unusedIndices (rowClusterRange node) prev !
                   fst (draw g (length (unusedIndices (rowClusterRange node) prev) - 1)),
                 finsert (unusedIndices (rowClusterRange node) prev !
                   fst (draw g (length (unusedIndices (rowClusterRange node) prev) - 1))) prev,
                 snd (draw g (length (unusedIndices (rowClusterRange node) prev) - 1)))"
proof -
  let ?r = "rowClusterRange node"
  have rows: "i < snd ?r - fst ?r"
    using lim iterationLimit_le_rows[of cfg node] numberOfRows_valid[OF valid] by simp
  have len: "length (unusedIndices ?r prev) = snd ?r - fst ?r - fcard prev"
    by (rule length_unusedIndices[OF sub])
  have ne: "unusedIndices ?r prev \<noteq> []" using len rows card by auto
  have hi: "snd ?r < 2 ^ 64" using valid by (simp add: validNode_def validRange_def)
  have lo: "fst ?r < snd ?r" using rows by simp
  have "randomIndex draw ?r prev g
         = Some (unusedIndices ?r prev ! fst (draw g (length (unusedIndices ?r prev) - 1)),
                 finsert (unusedIndices ?r prev ! fst (draw g (length (unusedIndices ?r prev) - 1))) prev,
                 snd (draw g (length (unusedIndices ?r prev) - 1)))"
    using lo hi sub ne draw by (rule randomIndex_unused)
  with ne show ?thesis by simp
qed

lemma loopReaches_invariant:
  assumes valid: "validNode node"
    and draw: "\<And>g b. fst (draw g b) \<le> b"
    and reach: "loopReaches cfg acc draw node g i st"
  shows "fset (previousRowIndices st)
           \<subseteq> {fst (rowClusterRange node)..<snd (rowClusterRange node)}
         \<and> fcard (previousRowIndices st) \<le> i"
  using reach
proof (induction rule: loopReaches.induct)
  case start
  then show ?case by (simp add: initialState_def)
next
  case (step i st st')
  let ?r = "rowClusterRange node"
  let ?prev = "previousRowIndices st"
  let ?U = "unusedIndices ?r ?prev"
  let ?k = "fst (draw (generator st) (length ?U - 1))"
  from step.IH have sub: "fset ?prev \<subseteq> {fst ?r..<snd ?r}" and card: "fcard ?prev \<le> i"
    by simp_all
  have ri0: "?U \<noteq> [] \<and> randomIndex draw ?r ?prev (generator st)
         = Some (?U ! ?k, finsert (?U ! ?k) ?prev, snd (draw (generator st) (length ?U - 1)))"
    using valid draw sub card step.hyps(2) by (rule randomIndex_in_loop)
  note ri = conjunct1[OF ri0] conjunct2[OF ri0]
  have klt: "?k < length ?U"
    using draw[of "generator st" "length ?U - 1"] ri(1) 
    by (metis One_nat_def Suc_pred length_greater_0_conv less_Suc_eq_le)
  obtain row used g' where
    b: "randomIndex draw ?r ?prev (generator st) = Some (row, used, g')"
       "previousRowIndices (stateOf (Continue st')) = used"
    using acaBody_used[OF step.hyps(3)] by blast
  from b(1) ri(2) have used: "used = finsert (?U ! ?k) ?prev" by auto
  have prev': "previousRowIndices st' = finsert (?U ! ?k) ?prev" using b(2) used by simp
  have "fcard (finsert (?U ! ?k) ?prev) \<le> fcard ?prev + 1"
    by (simp add: fcard_finsert_if)
  then show ?case
    using prev' sub card unusedIndices_nth[OF klt] by auto
qed

text \<open>With a valid node and a distribution that stays in its interval, the loop and the call return.\<close>

lemma acaLoop_returns:
  "validNode node \<Longrightarrow> (\<And>g b. fst (draw g b) \<le> b) \<Longrightarrow>
   fset (previousRowIndices st) \<subseteq> {fst (rowClusterRange node)..<snd (rowClusterRange node)} \<Longrightarrow>
   fcard (previousRowIndices st) \<le> i \<Longrightarrow>
   \<exists>res. acaLoop cfg acc draw node i st = Some res"
proof (induction cfg acc draw node i st rule: acaLoop.induct)
  case (1 cfg acc draw node i st)
  note valid = "1.prems"(1) and draw = "1.prems"(2) and sub = "1.prems"(3) and card = "1.prems"(4)
  show ?case
  proof (cases "i < iterationLimit cfg node")
    case False
    then show ?thesis by (simp add: acaLoop.simps)
  next
    case True
    let ?r = "rowClusterRange node"
    let ?prev = "previousRowIndices st"
    let ?U = "unusedIndices ?r ?prev"
    let ?k = "fst (draw (generator st) (length ?U - 1))"
    have ri: "?U \<noteq> [] \<and> randomIndex draw ?r ?prev (generator st)
         = Some (?U ! ?k, finsert (?U ! ?k) ?prev, snd (draw (generator st) (length ?U - 1)))"
      using valid draw sub card True by (rule randomIndex_in_loop)
    then obtain out where body: "acaBody cfg acc draw node st = Some out"
      by (simp add: acaBody_def)
    have klt: "?k < length ?U"
      using draw[of "generator st" "length ?U - 1"] ri
      by (metis One_nat_def Suc_pred length_greater_0_conv less_Suc_eq_le)
    obtain row used g' where
      b: "randomIndex draw ?r ?prev (generator st) = Some (row, used, g')"
         "previousRowIndices (stateOf out) = used"
      using acaBody_used[OF body] by blast
    from b(1) ri have used: "used = finsert (?U ! ?k) ?prev" by auto
    show ?thesis
    proof (cases out)
      case (Continue s)
      have prev': "previousRowIndices s = finsert (?U ! ?k) ?prev"
        using b(2) used Continue by simp
      have sub': "fset (previousRowIndices s) \<subseteq> {fst ?r..<snd ?r}"
        using prev' sub unusedIndices_nth[OF klt] by auto
      have "fcard (finsert (?U ! ?k) ?prev) \<le> fcard ?prev + 1"
        by (simp add: fcard_finsert_if)
      then have card': "fcard (previousRowIndices s) \<le> i + 1"
        using prev' card by simp
      have "\<exists>res. acaLoop cfg acc draw node (i + 1) s = Some res"
        using "1.IH"[OF True body Continue valid draw sub' card'] .
      moreover have "acaLoop cfg acc draw node i st = acaLoop cfg acc draw node (i + 1) s"
        using True body Continue by (subst acaLoop.simps) simp
      ultimately show ?thesis by simp
    next
      case (Break s)
      with True body show ?thesis by (subst acaLoop.simps) simp
    next
      case (Abort e s)
      with True body show ?thesis by (subst acaLoop.simps) simp
    qed
  qed
qed

lemma compressBlock_returns:
  assumes "validNode node" and "\<And>g b. fst (draw g b) \<le> b"
  shows "\<exists>r. compressBlock cfg acc draw node g = Some r"
proof -
  have "\<exists>res. acaLoop cfg acc draw node 0 (initialState cfg node g) = Some res"
    using assms by (intro acaLoop_returns) (simp_all add: initialState_def)
  then obtain res where "acaLoop cfg acc draw node 0 (initialState cfg node g) = Some res" ..
  then show ?thesis
    by (simp add: compressBlock_def split: sum.split prod.split)
qed

text \<open>
  C10. At every call of \<open>randomIndex\<close> that the loop makes (the loop stands at the head
  of iteration \<open>i\<close>, below the limit \<open>min(maxRank, rows, cols)\<close>), at least one row
  index of the block is not in the used set: the difference of the range width and the
  size of the used set is at least 1 as an integer, the wrapped \<open>std::size_t\<close>
  computation gives the number of unused indices, and the scan returns an index inside
  the row range. The call as a whole returns.
\<close>

theorem randomIndex_count_never_underflows:
  assumes "validNode node"
    and "\<And>g b. fst (draw g b) \<le> b"
    and "loopReaches cfg acc draw node g i st"
    and "i < iterationLimit cfg node"
  shows "i < min (maxRank cfg) (min (numberOfRows node) (numberOfColumns node))
       \<and> 1 \<le> int (snd (rowClusterRange node)) - int (fst (rowClusterRange node))
               - int (fcard (previousRowIndices st))
       \<and> sizeSub (sizeSub (snd (rowClusterRange node)) (fst (rowClusterRange node)))
            (fcard (previousRowIndices st))
           = length (unusedIndices (rowClusterRange node) (previousRowIndices st))
       \<and> 1 \<le> length (unusedIndices (rowClusterRange node) (previousRowIndices st))
       \<and> (\<exists>row used g'.
             randomIndex draw (rowClusterRange node) (previousRowIndices st) (generator st)
               = Some (row, used, g')
             \<and> fst (rowClusterRange node) \<le> row \<and> row < snd (rowClusterRange node))
       \<and> (\<exists>r. compressBlock cfg acc draw node g = Some r)"
proof -
  let ?r = "rowClusterRange node"
  let ?prev = "previousRowIndices st"
  let ?U = "unusedIndices ?r ?prev"
  let ?k = "fst (draw (generator st) (length ?U - 1))"
  have ret: "\<exists>r. compressBlock cfg acc draw node g = Some r"
    using assms(1,2) by (rule compressBlock_returns)
  have inv: "fset ?prev \<subseteq> {fst ?r..<snd ?r}" "fcard ?prev \<le> i"
    using loopReaches_invariant[OF assms(1,2,3)] by simp_all
  have ri0: "?U \<noteq> [] \<and> randomIndex draw ?r ?prev (generator st)
         = Some (?U ! ?k, finsert (?U ! ?k) ?prev, snd (draw (generator st) (length ?U - 1)))"
    using assms(1,2) inv assms(4) by (rule randomIndex_in_loop)
  note ri = conjunct1[OF ri0] conjunct2[OF ri0]
  have len: "length ?U = snd ?r - fst ?r - fcard ?prev"
    by (rule length_unusedIndices[OF inv(1)])
  have pos: "1 \<le> length ?U" using ri(1) by (simp add: Suc_le_eq)
  have klt: "?k < length ?U"
    using assms(2)[of "generator st" "length ?U - 1"] pos by linarith
  have hi: "snd ?r < 2 ^ 64" "fst ?r \<le> snd ?r"
    using assms(1) by (simp_all add: validNode_def validRange_def)
  have c1: "1 \<le> int (snd ?r) - int (fst ?r) - int (fcard ?prev)"
    using pos len by linarith
  have c2: "sizeSub (sizeSub (snd ?r) (fst ?r)) (fcard ?prev) = length ?U"
    using pos len hi by (simp add: sizeSub_le)
  show ?thesis
    using assms(4) c1 c2 pos ri(2) unusedIndices_nth[OF klt] ret
    by (simp add: iterationLimit_def)
qed

theorem randomIndex_count_never_underflows_witness:
  "loopReaches pairConfig (constantKernel (Fin 0)) counterDraw (blockNode 2 2 True) 0 1
     ((initialState pairConfig (blockNode 2 2 True) 0)\<lparr>previousRowIndices := {|0|}, generator := 1\<rparr>)
   \<and> (1::nat) < iterationLimit pairConfig (blockNode 2 2 True)
   \<and> sizeSub (sizeSub 2 0) (fcard {|0::nat|}) = 1
   \<and> (\<exists>row used g'. randomIndex counterDraw (0, 2) {|0|} 1 = Some (row, used, g')
                      \<and> row < 2)"
proof -
  let ?node = "blockNode 2 2 True"
  let ?st0 = "initialState pairConfig ?node (0::nat)"
  let ?st1 = "?st0\<lparr>previousRowIndices := {|0|}, generator := 1\<rparr>"
  have valid: "validNode ?node"
    by (simp add: validNode_def validRange_def blockNode_def)
  have draw: "\<And>g b. fst (counterDraw g b) \<le> b"
    by (simp add: counterDraw_def)
  have lim0: "0 < iterationLimit pairConfig ?node" and lim1: "1 < iterationLimit pairConfig ?node"
    by (simp_all add: example_defs aca_defs)
  have body: "acaBody pairConfig (constantKernel (Fin 0)) counterDraw ?node ?st0
                = Some (Continue ?st1)"
    by (simp add: example_defs aca_defs eigen_defs upt_0_2)
  have reach: "loopReaches pairConfig (constantKernel (Fin 0)) counterDraw ?node 0 (0 + 1) ?st1"
    using loopReaches.start lim0 body by (rule loopReaches.step)
  then have reach1: "loopReaches pairConfig (constantKernel (Fin 0)) counterDraw ?node 0 1 ?st1"
    by simp
  have U: "unusedIndices (0, 2) {|0|} = [1]"
    by (simp add: unusedIndices_def eval_nat_numeral)
  show ?thesis
    using randomIndex_count_never_underflows[OF valid draw reach1 lim1] reach1 lim1 U
    by (simp add: blockNode_def initialState_def)
qed

section \<open>The degenerate pivot and the stopping test\<close>

text \<open>
  C7. In an iteration whose residual row has a maximum absolute value below the floor
  \<open>1E-12\<close>, the body ends with \<open>continue\<close> and raises nothing: the factors and the
  rank count are as before, the row drawn is in the used set, the loop goes on with
  iteration \<open>i + 1\<close> (the trial has counted against the limit), and no later call of
  the sampler on a used set that contains this one returns the row again.
\<close>

theorem degenerate_row_is_skipped:
  assumes "i < iterationLimit cfg node"
    and "randomIndex draw (rowClusterRange node) (previousRowIndices st) (generator st)
           = Some (row, used, g')"
    and "evaluateMatMinusLowRank acc node (row, row + 1) (columnClusterRange node) (A st) (B st)
           = Inr newRow"
    and "maxCoeff (cwiseAbs newRow) = Inr (val, maxRowInd, maxColInd)"
    and "sless val pivotFloor"
  shows "acaBody cfg acc draw node st
           = Some (Continue (st\<lparr>previousRowIndices := used, generator := g'\<rparr>))
       \<and> acaLoop cfg acc draw node i st
           = acaLoop cfg acc draw node (i + 1) (st\<lparr>previousRowIndices := used, generator := g'\<rparr>)
       \<and> rankCount (st\<lparr>previousRowIndices := used, generator := g'\<rparr>) = rankCount st
       \<and> row |\<notin>| previousRowIndices st \<and> row |\<in>| used
       \<and> (\<forall>used2 g2 row2 used3 g3. used |\<subseteq>| used2 \<longrightarrow>
             randomIndex draw (rowClusterRange node) used2 g2 = Some (row2, used3, g3) \<longrightarrow>
             row2 \<noteq> row)"
proof -
  let ?st' = "st\<lparr>previousRowIndices := used, generator := g'\<rparr>"
  have trial: "acaTrial cfg acc node row ?st' = Continue ?st'"
    using assms(3,4,5) by (simp add: acaTrial_def)
  have body: "acaBody cfg acc draw node st = Some (Continue ?st')"
    using assms(2) trial by (simp add: acaBody_def)
  have loop: "acaLoop cfg acc draw node i st = acaLoop cfg acc draw node (i + 1) ?st'"
    using assms(1) body by (subst acaLoop.simps) simp
  have fresh: "row |\<notin>| previousRowIndices st" "used = finsert row (previousRowIndices st)"
    using randomIndex_fresh[OF assms(2)] by simp_all
  have later: "\<forall>used2 g2 row2 used3 g3. used |\<subseteq>| used2 \<longrightarrow>
             randomIndex draw (rowClusterRange node) used2 g2 = Some (row2, used3, g3) \<longrightarrow>
             row2 \<noteq> row"
  proof (intro allI impI)
    fix used2 g2 row2 used3 g3
    assume sub: "used |\<subseteq>| used2"
      and r: "randomIndex draw (rowClusterRange node) used2 g2 = Some (row2, used3, g3)"
    from randomIndex_fresh[OF r] have "row2 |\<notin>| used2" by simp
    moreover have "row |\<in>| used2" using sub fresh(2) by auto
    ultimately show "row2 \<noteq> row" by auto
  qed
  have rc: "rankCount ?st' = rankCount st" by simp
  have mem: "row |\<in>| used" using fresh(2) by simp
  show ?thesis by (intro conjI body loop rc fresh(1) mem later)
qed

theorem degenerate_row_is_skipped_witness:
  "acaBody unitConfig (constantKernel (Fin 0)) counterDraw (blockNode 1 1 True)
     (initialState unitConfig (blockNode 1 1 True) 0)
   = Some (Continue ((initialState unitConfig (blockNode 1 1 True) 0)
                       \<lparr>previousRowIndices := {|0|}, generator := 1\<rparr>))
   \<and> acaLoop unitConfig (constantKernel (Fin 0)) counterDraw (blockNode 1 1 True) 0
       (initialState unitConfig (blockNode 1 1 True) 0)
     = acaLoop unitConfig (constantKernel (Fin 0)) counterDraw (blockNode 1 1 True) 1
         ((initialState unitConfig (blockNode 1 1 True) 0)
            \<lparr>previousRowIndices := {|0|}, generator := 1\<rparr>)"
proof -
  let ?node = "blockNode 1 1 True"
  let ?st0 = "initialState unitConfig ?node (0::nat)"
  have h1: "0 < iterationLimit unitConfig ?node"
    by (simp add: example_defs aca_defs)
  have h2: "randomIndex counterDraw (rowClusterRange ?node) (previousRowIndices ?st0)
              (generator ?st0) = Some (0, {|0|}, 1)"
    by (simp add: example_defs aca_defs)
  have h3: "evaluateMatMinusLowRank (constantKernel (Fin 0)) ?node (0, 0 + 1)
              (columnClusterRange ?node) (A ?st0) (B ?st0)
            = Inr \<lparr>rows = 1, cols = 1, coeff = (\<lambda>i j. Fin 0)\<rparr>"
    by (simp add: example_defs aca_defs eigen_defs)
  have h4: "maxCoeff (cwiseAbs \<lparr>rows = 1, cols = 1, coeff = (\<lambda>i j. Fin 0)\<rparr>)
            = Inr (Fin 0, 0, 0)"
    by (simp add: eigen_defs)
  have h5: "sless (Fin 0) pivotFloor"
    by (simp add: pivotFloor_def)
  show ?thesis
    using degenerate_row_is_skipped[OF h1 h2 h3 h4 h5] by simp
qed

text \<open>
  The stopping test as the loop applies it. In an iteration that reaches the store of
  the new column and row, the loop ends exactly when the product of the norm of the new
  column and the norm of the new row is strictly less than \<open>eps\<close> times the Frobenius
  norm; that norm is the one of the factors of the state the iteration started from,
  taken before the growth and the store. Otherwise the loop goes on with the next
  iteration from the stored state.
\<close>

lemma stopping_test_after_store:
  assumes "i < iterationLimit cfg node"
    and "randomIndex draw (rowClusterRange node) (previousRowIndices st) (generator st)
           = Some (row, used, g')"
    and "evaluateMatMinusLowRank acc node (row, row + 1) (columnClusterRange node) (A st) (B st)
           = Inr residualRow"
    and "maxCoeff (cwiseAbs residualRow) = Inr (val, maxRowInd, maxColInd)"
    and "\<not> sless val pivotFloor"
    and "newRow = divScalar residualRow (coeff residualRow 0 maxColInd)"
    and "evaluateMatMinusLowRank acc node (rowClusterRange node)
           (maxColInd + fst (columnClusterRange node),
            maxColInd + fst (columnClusterRange node) + 1) (A st) (B st) = Inr newCol"
    and "frobeniusNorm (A st) (B st) = Inr normBefore"
    and "grown = (if rankCount st = cols (A st)
                  then st\<lparr>A := growCols (A st) (resizeThreshold cfg),
                          B := growRows (B st) (resizeThreshold cfg)\<rparr>
                  else st)"
    and "setCol (A grown) (rankCount st) newCol = Inr A'"
    and "setRow (B grown) (rankCount st) newRow = Inr B'"
    and "stored = st\<lparr>A := A', B := B', previousRowIndices := used,
                      rankCount := rankCount st + 1, generator := g'\<rparr>"
  shows "acaBody cfg acc draw node st
           = Some (if sless (smul (norm_mat newCol) (norm_mat newRow))
                            (smul (eps cfg) normBefore)
                   then Break stored else Continue stored)
       \<and> acaLoop cfg acc draw node i st
           = (if sless (smul (norm_mat newCol) (norm_mat newRow)) (smul (eps cfg) normBefore)
              then Some (Inr stored)
              else acaLoop cfg acc draw node (i + 1) stored)"
proof -
  let ?st1 = "st\<lparr>previousRowIndices := used, generator := g'\<rparr>"
  let ?test = "sless (smul (norm_mat newCol) (norm_mat newRow)) (smul (eps cfg) normBefore)"
  have upd: "acaUpdate cfg acc node newRow maxColInd ?st1
               = (if ?test then Break stored else Continue stored)"
    using assms(7-12) by (auto simp: acaUpdate_def Let_def)
  have trial: "acaTrial cfg acc node row ?st1 = (if ?test then Break stored else Continue stored)"
    using assms(3,4,5,6) upd by (simp add: acaTrial_def)
  have body: "acaBody cfg acc draw node st
                = Some (if ?test then Break stored else Continue stored)"
    using assms(2) trial by (simp add: acaBody_def)
  have loop: "acaLoop cfg acc draw node i st
           = (if ?test then Some (Inr stored) else acaLoop cfg acc draw node (i + 1) stored)"
    using assms(1) body by (subst acaLoop.simps) simp
  show ?thesis by (intro conjI body loop)
qed

lemma stopping_test_after_store_example:
  "acaLoop unitConfig (constantKernel (Fin 1)) counterDraw (blockNode 1 1 True) 0
       (initialState unitConfig (blockNode 1 1 True) 0)
     = acaLoop unitConfig (constantKernel (Fin 1)) counterDraw (blockNode 1 1 True) 1
         \<lparr>A = \<lparr>rows = 1, cols = 1, coeff = (\<lambda>i j. if j = 0 then Fin 1 else Fin 0)\<rparr>,
          B = \<lparr>rows = 1, cols = 1, coeff = (\<lambda>i j. if i = 0 then Fin 1 else Fin 0)\<rparr>,
          previousRowIndices = {|0|}, rankCount = 1, generator = 1\<rparr>"
proof -
  let ?node = "blockNode 1 1 True"
  let ?st0 = "initialState unitConfig ?node (0::nat)"
  let ?one = "\<lparr>rows = 1, cols = 1, coeff = (\<lambda>i j. Fin 1)\<rparr>"
  let ?A' = "\<lparr>rows = 1, cols = 1, coeff = (\<lambda>i j. if j = 0 then Fin 1 else Fin 0)\<rparr>"
  let ?B' = "\<lparr>rows = 1, cols = 1, coeff = (\<lambda>i j. if i = 0 then Fin 1 else Fin 0)\<rparr>"
  have h1: "0 < iterationLimit unitConfig ?node"
    by (simp add: example_defs aca_defs)
  have h2: "randomIndex counterDraw (rowClusterRange ?node) (previousRowIndices ?st0)
              (generator ?st0) = Some (0, {|0|}, 1)"
    by (simp add: example_defs aca_defs)
  have h3: "evaluateMatMinusLowRank (constantKernel (Fin 1)) ?node (0, 0 + 1)
              (columnClusterRange ?node) (A ?st0) (B ?st0) = Inr ?one"
    by (simp add: example_defs aca_defs eigen_defs)
  have h4: "maxCoeff (cwiseAbs ?one) = Inr (Fin 1, 0, 0)"
    by (simp add: eigen_defs)
  have h5: "\<not> sless (Fin 1) pivotFloor"
    by (simp add: pivotFloor_def)
  have h6: "?one = divScalar ?one (coeff ?one 0 0)"
    by (simp add: eigen_defs)
  have h7: "evaluateMatMinusLowRank (constantKernel (Fin 1)) ?node (rowClusterRange ?node)
           (0 + fst (columnClusterRange ?node), 0 + fst (columnClusterRange ?node) + 1)
           (A ?st0) (B ?st0) = Inr ?one"
    by (simp add: example_defs aca_defs eigen_defs)
  have h8: "frobeniusNorm (A ?st0) (B ?st0) = Inr (Fin 0)"
    by (simp add: example_defs aca_defs eigen_defs)
  have h9: "?st0 = (if rankCount ?st0 = cols (A ?st0)
                  then ?st0\<lparr>A := growCols (A ?st0) (resizeThreshold unitConfig),
                          B := growRows (B ?st0) (resizeThreshold unitConfig)\<rparr>
                  else ?st0)"
    by (simp add: example_defs aca_defs eigen_defs)
  have h10: "setCol (A ?st0) (rankCount ?st0) ?one = Inr ?A'"
    by (simp add: example_defs aca_defs eigen_defs cong: if_cong)
  have h11: "setRow (B ?st0) (rankCount ?st0) ?one = Inr ?B'"
    by (simp add: example_defs aca_defs eigen_defs cong: if_cong)
  have h12: "\<lparr>A = ?A', B = ?B', previousRowIndices = {|0|}, rankCount = 1, generator = 1\<rparr>
             = ?st0\<lparr>A := ?A', B := ?B', previousRowIndices := {|0|},
                      rankCount := rankCount ?st0 + 1, generator := 1\<rparr>"
    by (simp add: example_defs aca_defs)
  have test: "\<not> sless (smul (norm_mat ?one) (norm_mat ?one)) (smul (eps unitConfig) (Fin 0))"
    by (simp add: example_defs eigen_defs)
  show ?thesis
    using conjunct2[OF stopping_test_after_store[OF h1 h2 h3 h4 h5 h6 h7 h8 h9 h10 h11 h12]] test
    by (simp only: if_False One_nat_def add_0 plus_nat.add_0)
qed

section \<open>What the caller has after the numerical error\<close>

text \<open>Every error that an Eigen operation of the model gives is a failed assertion.\<close>

lemma block_error: "block M a b c d = Inl e \<Longrightarrow> e = EigenAssert"
  by (simp add: block_def split: if_splits)

lemma mprod_error: "mprod L R = Inl e \<Longrightarrow> e = EigenAssert"
  by (simp add: mprod_def split: if_splits)

lemma msub_error: "msub L R = Inl e \<Longrightarrow> e = EigenAssert"
  by (simp add: msub_def split: if_splits)

lemma maxCoeff_error: "maxCoeff M = Inl e \<Longrightarrow> e = EigenAssert"
  by (simp add: maxCoeff_def split: if_splits)

lemma setCol_error: "setCol M k V = Inl e \<Longrightarrow> e = EigenAssert"
  by (simp add: setCol_def split: if_splits)

lemma setRow_error: "setRow M k V = Inl e \<Longrightarrow> e = EigenAssert"
  by (simp add: setRow_def split: if_splits)

lemma frobeniusNorm_error: "frobeniusNorm X Y = Inl e \<Longrightarrow> e = EigenAssert"
  by (cases "mprod X Y") (simp_all add: frobeniusNorm_def mprod_error)

lemma evaluateMatMinusLowRank_error:
  assumes "evaluateMatMinusLowRank acc node rr cr X Y = Inl e"
  shows "e = EigenAssert"
proof (cases e)
  case EigenAssert
  then show ?thesis .
next
  case NaNDetected
  have "evaluateMatMinusLowRank acc node rr cr X Y \<noteq> Inl NaNDetected"
    unfolding evaluateMatMinusLowRank_def Let_def
    using block_error mprod_error msub_error
    by (fastforce split: sum.splits)
  with assms NaNDetected show ?thesis by simp
qed

lemma acaUpdate_error:
  assumes "acaUpdate cfg acc node newRow c st = Abort e st'"
  shows "e = EigenAssert"
proof -
  let ?g = "if rankCount st = cols (A st)
            then st\<lparr>A := growCols (A st) (resizeThreshold cfg),
                    B := growRows (B st) (resizeThreshold cfg)\<rparr>
            else st"
  show ?thesis
  proof (cases "evaluateMatMinusLowRank acc node (rowClusterRange node)
         (c + fst (columnClusterRange node), c + fst (columnClusterRange node) + 1) (A st) (B st)")
    case (Inl x)
    with assms have "x = e" by (simp add: acaUpdate_def Let_def)
    with Inl evaluateMatMinusLowRank_error show ?thesis by blast
  next
    case newCol: (Inr newCol)
    show ?thesis
    proof (cases "frobeniusNorm (A st) (B st)")
      case (Inl x)
      with assms newCol have "x = e" by (simp add: acaUpdate_def Let_def)
      with Inl frobeniusNorm_error show ?thesis by blast
    next
      case fro: (Inr fro)
      show ?thesis
      proof (cases "setCol (A ?g) (rankCount ?g) newCol")
        case (Inl x)
        with assms newCol fro have "x = e" by (simp add: acaUpdate_def Let_def)
        with Inl setCol_error show ?thesis by blast
      next
        case sc: (Inr A')
        show ?thesis
        proof (cases "setRow (B ?g) (rankCount ?g) newRow")
          case (Inl x)
          with assms newCol fro sc have "x = e" by (simp add: acaUpdate_def Let_def)
          with Inl setRow_error show ?thesis by blast
        next
          case (Inr B')
          with assms newCol fro sc show ?thesis
            by (simp add: acaUpdate_def Let_def split: if_splits)
        qed
      qed
    qed
  qed
qed

lemma acaTrial_error:
  assumes "acaTrial cfg acc node row st = Abort e st'"
  shows "e = EigenAssert"
proof (cases "evaluateMatMinusLowRank acc node (row, row + 1) (columnClusterRange node)
                (A st) (B st)")
  case (Inl x)
  with assms have "x = e" by (simp add: acaTrial_def)
  with Inl evaluateMatMinusLowRank_error show ?thesis by blast
next
  case newRow: (Inr newRow)
  show ?thesis
  proof (cases "maxCoeff (cwiseAbs newRow)")
    case (Inl x)
    with assms newRow have "x = e" by (simp add: acaTrial_def)
    with Inl maxCoeff_error show ?thesis by blast
  next
    case (Inr m)
    obtain val r c where m: "m = (val, r, c)" by (cases m)
    from assms newRow Inr m acaUpdate_error show ?thesis
      by (auto simp: acaTrial_def split: if_splits)
  qed
qed

lemma acaBody_error:
  "acaBody cfg acc draw node st = Some (Abort e st') \<Longrightarrow> e = EigenAssert"
  by (auto simp: acaBody_def split: option.splits dest: acaTrial_error)

lemma acaLoop_error:
  "acaLoop cfg acc draw node i st = Some (Inl (e, st')) \<Longrightarrow> e = EigenAssert"
proof (induction cfg acc draw node i st rule: acaLoop.induct)
  case (1 cfg acc draw node i st)
  show ?case
  proof (cases "i < iterationLimit cfg node")
    case False
    with "1.prems" show ?thesis by (simp add: acaLoop.simps)
  next
    case True
    show ?thesis
    proof (cases "acaBody cfg acc draw node st")
      case None
      with True "1.prems" show ?thesis by (simp add: acaLoop.simps)
    next
      case (Some out)
      show ?thesis
      proof (cases out)
        case (Continue s)
        with True Some "1.prems" have "acaLoop cfg acc draw node (i + 1) s = Some (Inl (e, st'))"
          by (simp add: acaLoop.simps)
        with "1.IH"[OF True Some Continue] show ?thesis by simp
      next
        case (Break s)
        with True Some "1.prems" show ?thesis by (simp add: acaLoop.simps)
      next
        case (Abort e' s)
        with True Some "1.prems" have "e' = e" by (simp add: acaLoop.simps)
        with Abort Some acaBody_error show ?thesis by blast
      qed
    qed
  qed
qed

lemma truncateFactors_error: "truncateFactors st = Inl (e, st') \<Longrightarrow> e = EigenAssert"
  by (auto simp: truncateFactors_def split: if_splits sum.splits dest: block_error)

text \<open>
  C3, as stated, fails. The claim: when \<open>compressBlock\<close> raises the numerical error,
  the block's data as the caller observes it after the call does not hold the
  accumulated factor pair. On the admissible one by one block whose entry is infinite,
  the call raises \<open>NaNDetected\<close> and the caller's data is the low-rank pair it has
  accumulated: A holds the infinite column, B the NaN row.
\<close>

theorem numerical_error_leaves_factors_counterexample:
  "compressBlock unitConfig (constantKernel PInf) counterDraw (blockNode 1 1 True) 0 \<noteq> None
   \<and> raised (the (compressBlock unitConfig (constantKernel PInf) counterDraw
                      (blockNode 1 1 True) 0)) = Some NaNDetected
   \<and> cols (factorA (hMatrixData (the (compressBlock unitConfig (constantKernel PInf)
                      counterDraw (blockNode 1 1 True) 0)))) = 1
   \<and> coeff (factorA (hMatrixData (the (compressBlock unitConfig (constantKernel PInf)
                      counterDraw (blockNode 1 1 True) 0)))) 0 0 = PInf
   \<and> rows (factorB (hMatrixData (the (compressBlock unitConfig (constantKernel PInf)
                      counterDraw (blockNode 1 1 True) 0)))) = 1
   \<and> coeff (factorB (hMatrixData (the (compressBlock unitConfig (constantKernel PInf)
                      counterDraw (blockNode 1 1 True) 0)))) 0 0 = NaN"
proof -
  let ?call = "compressBlock unitConfig (constantKernel PInf) counterDraw (blockNode 1 1 True) 0"
  have "map_option (\<lambda>r. (raised r, cols (factorA (hMatrixData r)),
                      coeff (factorA (hMatrixData r)) 0 0,
                      rows (factorB (hMatrixData r)),
                      coeff (factorB (hMatrixData r)) 0 0)) ?call
        = Some (Some NaNDetected, 1, PInf, 1, NaN)"
    by (simp add: example_defs aca_defs eigen_defs)
  then show ?thesis by (cases ?call) simp_all
qed

text \<open>
  C3, amended. For every admissible block on which \<open>compressBlock\<close> raises the
  numerical error, the loop has run to its end and the factors have been truncated
  without a failed assertion, and the block's data as the caller observes it after the
  call is the low-rank data holding the accumulated factor pair, truncated to the rank
  count; the error is raised by the check on that pair, after the store.
\<close>

theorem numerical_error_leaves_truncated_factors:
  assumes "admissible node"
    and "compressBlock cfg acc draw node g = Some r"
    and "raised r = Some NaNDetected"
  shows "\<exists>st st'. acaLoop cfg acc draw node 0 (initialState cfg node g) = Some (Inr st)
                 \<and> truncateFactors st = Inr st'
                 \<and> hMatrixData r = LowRank (A st') (B st')
                 \<and> nanDetected (A st') (B st')"
proof (cases "acaLoop cfg acc draw node 0 (initialState cfg node g)")
  case None
  with assms(1,2) show ?thesis by (simp add: compressBlock_def)
next
  case (Some res)
  show ?thesis
  proof (cases res)
    case (Inl p)
    obtain e s where p: "p = (e, s)" by (cases p)
    from Some Inl p have "e = EigenAssert" using acaLoop_error by blast
    with assms Some Inl p show ?thesis by (auto simp: compressBlock_def)
  next
    case (Inr st)
    show ?thesis
    proof (cases "truncateFactors st")
      case (Inl p)
      obtain e s where p: "p = (e, s)" by (cases p)
      from Inl p have "e = EigenAssert" using truncateFactors_error by blast
      with assms Some Inr Inl p show ?thesis by (auto simp: compressBlock_def)
    next
      case tr: (Inr st')
      with assms Some Inr show ?thesis
        by (auto simp: compressBlock_def split: if_splits)
    qed
  qed
qed

theorem numerical_error_leaves_truncated_factors_witness:
  "\<exists>st st'. acaLoop unitConfig (constantKernel PInf) counterDraw (blockNode 1 1 True) 0
               (initialState unitConfig (blockNode 1 1 True) 0) = Some (Inr st)
     \<and> truncateFactors st = Inr st'
     \<and> hMatrixData (the (compressBlock unitConfig (constantKernel PInf) counterDraw
                            (blockNode 1 1 True) 0)) = LowRank (A st') (B st')
     \<and> nanDetected (A st') (B st')"
proof -
  let ?call = "compressBlock unitConfig (constantKernel PInf) counterDraw (blockNode 1 1 True) 0"
  have h1: "admissible (blockNode 1 1 True)" by (simp add: blockNode_def)
  have ev: "map_option raised ?call = Some (Some NaNDetected)"
    by (simp add: example_defs aca_defs eigen_defs)
  then have h2: "?call = Some (the ?call)" by (cases ?call) simp_all
  have h3: "raised (the ?call) = Some NaNDetected" using ev by (cases ?call) simp_all
  show ?thesis using numerical_error_leaves_truncated_factors[OF h1 h2 h3] .
qed

section \<open>The shared generator\<close>

text \<open>The body and the truncation do not look at the generator.\<close>

lemma forget_fields [simp]:
  "A (forget st) = A st" "B (forget st) = B st"
  "previousRowIndices (forget st) = previousRowIndices st"
  "rankCount (forget st) = rankCount st"
  by (simp_all add: forget_def)

lemma forget_update:
  "forget (st\<lparr>A := X\<rparr>) = (forget st)\<lparr>A := X\<rparr>"
  "forget (st\<lparr>B := Y\<rparr>) = (forget st)\<lparr>B := Y\<rparr>"
  "forget (st\<lparr>rankCount := k\<rparr>) = (forget st)\<lparr>rankCount := k\<rparr>"
  "forget (st\<lparr>previousRowIndices := u\<rparr>) = (forget st)\<lparr>previousRowIndices := u\<rparr>"
  "forget (st\<lparr>generator := g\<rparr>) = forget st"
  by (simp_all add: forget_def)

lemma forgetOutcome_if:
  "forgetOutcome (if c then x else y) = (if c then forgetOutcome x else forgetOutcome y)"
  by simp

lemma acaUpdate_forget:
  "forgetOutcome (acaUpdate cfg acc node newRow c st) = acaUpdate cfg acc node newRow c (forget st)"
  by (simp add: acaUpdate_def Let_def forget_update split: sum.split)

lemma acaTrial_forget:
  "forgetOutcome (acaTrial cfg acc node row st) = acaTrial cfg acc node row (forget st)"
  by (simp add: acaTrial_def acaUpdate_forget split: sum.split prod.split)


lemma forget_eqD:
  assumes "forget st1 = forget st2"
  shows "A st1 = A st2" "B st1 = B st2" "previousRowIndices st1 = previousRowIndices st2"
    "rankCount st1 = rankCount st2"
proof -
  have "A (forget st1) = A (forget st2)" "B (forget st1) = B (forget st2)"
    "previousRowIndices (forget st1) = previousRowIndices (forget st2)"
    "rankCount (forget st1) = rankCount (forget st2)"
    using assms by simp_all
  then show "A st1 = A st2" "B st1 = B st2" "previousRowIndices st1 = previousRowIndices st2"
    "rankCount st1 = rankCount st2" by simp_all
qed

lemma randomIndex_scan:
  "randomIndex draw rng prev g =
     map_option
       (\<lambda>idx. (idx, finsert idx prev,
               snd (draw g (sizeSub (sizeSub (sizeSub (snd rng) (fst rng)) (fcard prev)) 1))))
       (scanUnused prev
          (fst (draw g (sizeSub (sizeSub (sizeSub (snd rng) (fst rng)) (fcard prev)) 1)))
          (fst rng) 0)"
  by (simp add: randomIndex_def Let_def split_beta split: option.split)

lemma acaBody_related:
  assumes bis: "\<And>g1 g2 b. R g1 g2 \<Longrightarrow>
                  fst (draw1 g1 b) = fst (draw2 g2 b) \<and> R (snd (draw1 g1 b)) (snd (draw2 g2 b))"
    and eq: "forget st1 = forget st2"
    and gen: "R (generator st1) (generator st2)"
  shows "(acaBody cfg acc draw1 node st1 = None \<and> acaBody cfg acc draw2 node st2 = None)
       \<or> (\<exists>o1 o2. acaBody cfg acc draw1 node st1 = Some o1
                  \<and> acaBody cfg acc draw2 node st2 = Some o2
                  \<and> forgetOutcome o1 = forgetOutcome o2
                  \<and> R (generator (stateOf o1)) (generator (stateOf o2)))"
proof -
  let ?rng = "rowClusterRange node"
  let ?prev = "previousRowIndices st1"
  let ?b = "sizeSub (sizeSub (sizeSub (snd ?rng) (fst ?rng)) (fcard ?prev)) 1"
  have prev: "previousRowIndices st2 = ?prev" using forget_eqD(3)[OF eq] by simp
  have ind: "fst (draw1 (generator st1) ?b) = fst (draw2 (generator st2) ?b)"
    and gen': "R (snd (draw1 (generator st1) ?b)) (snd (draw2 (generator st2) ?b))"
    using bis[OF gen, of ?b] by simp_all
  show ?thesis
  proof (cases "scanUnused ?prev (fst (draw1 (generator st1) ?b)) (fst ?rng) 0")
    case None
    then have "acaBody cfg acc draw1 node st1 = None"
      by (simp add: acaBody_def randomIndex_scan)
    moreover from None ind have "acaBody cfg acc draw2 node st2 = None"
      by (simp add: acaBody_def randomIndex_scan prev)
    ultimately show ?thesis by simp
  next
    case (Some idx)
    let ?s1 = "st1\<lparr>previousRowIndices := finsert idx ?prev,
                     generator := snd (draw1 (generator st1) ?b)\<rparr>"
    let ?s2 = "st2\<lparr>previousRowIndices := finsert idx ?prev,
                     generator := snd (draw2 (generator st2) ?b)\<rparr>"
    have b1: "acaBody cfg acc draw1 node st1 = Some (acaTrial cfg acc node idx ?s1)"
      using Some by (simp add: acaBody_def randomIndex_scan)
    have b2: "acaBody cfg acc draw2 node st2 = Some (acaTrial cfg acc node idx ?s2)"
      using Some ind by (simp add: acaBody_def randomIndex_scan prev)
    have "forget ?s1 = forget ?s2" using eq by (simp add: forget_update)
    then have f: "forgetOutcome (acaTrial cfg acc node idx ?s1)
                = forgetOutcome (acaTrial cfg acc node idx ?s2)"
      by (simp add: acaTrial_forget)
    have g: "R (generator (stateOf (acaTrial cfg acc node idx ?s1)))
               (generator (stateOf (acaTrial cfg acc node idx ?s2)))"
      using gen' by (simp add: acaTrial_frame)
    show ?thesis using b1 b2 f g by blast
  qed
qed

lemma forgetOutcome_eq_cases:
  assumes "forgetOutcome o1 = forgetOutcome o2"
  shows "(\<exists>s1 s2. o1 = Continue s1 \<and> o2 = Continue s2 \<and> forget s1 = forget s2)
       \<or> (\<exists>s1 s2. o1 = Break s1 \<and> o2 = Break s2 \<and> forget s1 = forget s2)
       \<or> (\<exists>e s1 s2. o1 = Abort e s1 \<and> o2 = Abort e s2 \<and> forget s1 = forget s2)"
  using assms by (cases o1; cases o2) simp_all

lemma acaLoop_related:
  shows "(\<And>g1 g2 b. R g1 g2 \<Longrightarrow>
                  fst (draw1 g1 b) = fst (draw2 g2 b) \<and> R (snd (draw1 g1 b)) (snd (draw2 g2 b))) \<Longrightarrow>
         forget st1 = forget st2 \<Longrightarrow> R (generator st1) (generator st2) \<Longrightarrow>
         map_option (forgetResult) (acaLoop cfg acc draw1 node i st1)
       = map_option (forgetResult) (acaLoop cfg acc draw2 node i st2)"
proof (induction cfg acc draw1 node i st1 arbitrary: st2 rule: acaLoop.induct)
  case (1 cfg acc draw1 node i st1)
  note bis = "1.prems"(1) and eq = "1.prems"(2) and gen = "1.prems"(3)
  show ?case
  proof (cases "i < iterationLimit cfg node")
    case False
    then show ?thesis using eq by (simp add: acaLoop.simps)
  next
    case True
    have "(acaBody cfg acc draw1 node st1 = None \<and> acaBody cfg acc draw2 node st2 = None)
       \<or> (\<exists>o1 o2. acaBody cfg acc draw1 node st1 = Some o1
                  \<and> acaBody cfg acc draw2 node st2 = Some o2
                  \<and> forgetOutcome o1 = forgetOutcome o2
                  \<and> R (generator (stateOf o1)) (generator (stateOf o2)))"
    proof (rule acaBody_related)
      show "\<And>g1 g2 b. R g1 g2 \<Longrightarrow>
              fst (draw1 g1 b) = fst (draw2 g2 b) \<and> R (snd (draw1 g1 b)) (snd (draw2 g2 b))"
        using bis by blast
      show "forget st1 = forget st2" by (rule eq)
      show "R (generator st1) (generator st2)" by (rule gen)
    qed
    then consider
      (none) "acaBody cfg acc draw1 node st1 = None" "acaBody cfg acc draw2 node st2 = None"
    | (some) o1 o2 where "acaBody cfg acc draw1 node st1 = Some o1"
        "acaBody cfg acc draw2 node st2 = Some o2" "forgetOutcome o1 = forgetOutcome o2"
        "R (generator (stateOf o1)) (generator (stateOf o2))"
      by (elim disjE exE conjE) auto
    then show ?thesis
    proof cases
      case none
      with True show ?thesis by (simp add: acaLoop.simps)
    next
      case some
      from forgetOutcome_eq_cases[OF some(3)]
      consider
        (cont) s1 s2 where "o1 = Continue s1" "o2 = Continue s2" "forget s1 = forget s2"
      | (brk) s1 s2 where "o1 = Break s1" "o2 = Break s2" "forget s1 = forget s2"
      | (abort) e s1 s2 where "o1 = Abort e s1" "o2 = Abort e s2" "forget s1 = forget s2"
        by blast
      then show ?thesis
      proof cases
        case cont
        have R': "R (generator s1) (generator s2)" using some(4) cont by simp
        have "map_option (forgetResult)
                (acaLoop cfg acc draw1 node (i + 1) s1)
            = map_option (forgetResult)
                (acaLoop cfg acc draw2 node (i + 1) s2)"
          using "1.IH"[OF True some(1) cont(1) bis cont(3) R'] .
        moreover have "acaLoop cfg acc draw1 node i st1 = acaLoop cfg acc draw1 node (i + 1) s1"
          using True some(1) cont(1) by (subst acaLoop.simps) simp
        moreover have "acaLoop cfg acc draw2 node i st2 = acaLoop cfg acc draw2 node (i + 1) s2"
          using True some(2) cont(2) by (subst acaLoop.simps) simp
        ultimately show ?thesis by simp
      next
        case brk
        have "acaLoop cfg acc draw1 node i st1 = Some (Inr s1)"
          using True some(1) brk(1) by (subst acaLoop.simps) simp
        moreover have "acaLoop cfg acc draw2 node i st2 = Some (Inr s2)"
          using True some(2) brk(2) by (subst acaLoop.simps) simp
        ultimately show ?thesis using brk(3) by simp
      next
        case abort
        have "acaLoop cfg acc draw1 node i st1 = Some (Inl (e, s1))"
          using True some(1) abort(1) by (subst acaLoop.simps) simp
        moreover have "acaLoop cfg acc draw2 node i st2 = Some (Inl (e, s2))"
          using True some(2) abort(2) by (subst acaLoop.simps) simp
        ultimately show ?thesis using abort(3) by simp
      qed
    qed
  qed
qed


lemma truncateFactors_forget:
  "forgetResult (truncateFactors st) = truncateFactors (forget st)"
  by (simp add: truncateFactors_def forget_update split: sum.split)

lemma initialState_forget: "forget (initialState cfg node g) = initialState cfg node ()"
  by (simp add: initialState_def forget_def)

text \<open>
  C4, amended. The generator that drives the sampling is one generator shared by all
  calls of \<open>compressBlock\<close>: a call starts from the state in which the previous call
  left it, and there is no seed. Two runs of \<open>compressBlock\<close> on the same node in
  which the generator yields the same numbers (their generator states are related by
  a relation under which equal bounds give equal draws and related next states) pick
  the same pivot rows and produce the same factor pair, the same rank count and the
  same error.
\<close>

theorem same_draws_same_factors:
  assumes "\<And>g1 g2 b. R g1 g2 \<Longrightarrow>
             fst (draw1 g1 b) = fst (draw2 g2 b) \<and> R (snd (draw1 g1 b)) (snd (draw2 g2 b))"
    and "R g1 g2"
  shows "map_option forgetResult (acaLoop cfg acc draw1 node 0 (initialState cfg node g1))
         = map_option forgetResult (acaLoop cfg acc draw2 node 0 (initialState cfg node g2))
       \<and> map_option (\<lambda>r. (hMatrixData r, raised r)) (compressBlock cfg acc draw1 node g1)
         = map_option (\<lambda>r. (hMatrixData r, raised r)) (compressBlock cfg acc draw2 node g2)"
proof -
  define fin where "fin = (\<lambda>x :: (error \<times> unit acaState + unit acaState) option.
      case x of
        None \<Rightarrow> None
      | Some (Inl (e, st)) \<Rightarrow> Some (LowRank (A st) (B st), Some e)
      | Some (Inr st) \<Rightarrow>
          (case truncateFactors st of
             Inl (e, st') \<Rightarrow> Some (LowRank (A st') (B st'), Some e)
           | Inr st' \<Rightarrow>
               Some (LowRank (A st') (B st'),
                     if nanDetected (A st') (B st') then Some NaNDetected else None)))"
  have key: "map_option (\<lambda>r. (hMatrixData r, raised r)) (compressBlock cfg acc draw node g)
           = fin (map_option forgetResult (acaLoop cfg acc draw node 0 (initialState cfg node g)))"
    if "admissible node" for draw :: "'x distribution" and g
  proof (cases "acaLoop cfg acc draw node 0 (initialState cfg node g)")
    case None
    with that show ?thesis by (simp add: compressBlock_def fin_def)
  next
    case (Some res)
    show ?thesis
    proof (cases res)
      case (Inl p)
      with Some that show ?thesis by (cases p) (simp add: compressBlock_def fin_def)
    next
      case (Inr st)
      show ?thesis
      proof (cases "truncateFactors st")
        case (Inl p)
        obtain e s where p: "p = (e, s)" by (cases p)
        have "truncateFactors (forget st) = Inl (e, forget s)"
          using truncateFactors_forget[of st] Inl p by simp
        with Some Inr Inl p that show ?thesis by (simp add: compressBlock_def fin_def)
      next
        case tr: (Inr s)
        have "truncateFactors (forget st) = Inr (forget s)"
          using truncateFactors_forget[of st] tr by simp
        with Some Inr tr that show ?thesis by (simp add: compressBlock_def fin_def)
      qed
    qed
  qed
  have loop: "map_option forgetResult (acaLoop cfg acc draw1 node 0 (initialState cfg node g1))
         = map_option forgetResult (acaLoop cfg acc draw2 node 0 (initialState cfg node g2))"
  proof (rule acaLoop_related)
    show "\<And>g1 g2 b. R g1 g2 \<Longrightarrow>
            fst (draw1 g1 b) = fst (draw2 g2 b) \<and> R (snd (draw1 g1 b)) (snd (draw2 g2 b))"
      using assms(1) by blast
    show "forget (initialState cfg node g1) = forget (initialState cfg node g2)"
      by (simp add: initialState_forget)
    show "R (generator (initialState cfg node g1)) (generator (initialState cfg node g2))"
      using assms(2) by (simp add: initialState_def)
  qed
  have call: "map_option (\<lambda>r. (hMatrixData r, raised r)) (compressBlock cfg acc draw1 node g1)
         = map_option (\<lambda>r. (hMatrixData r, raised r)) (compressBlock cfg acc draw2 node g2)"
  proof (cases "admissible node")
    case True
    then show ?thesis using key[of draw1 g1] key[of draw2 g2] loop by simp
  next
    case False
    then show ?thesis by (simp add: compressBlock_def)
  qed
  show ?thesis by (intro conjI loop call)
qed

theorem same_draws_same_factors_witness:
  "map_option (\<lambda>r. (hMatrixData r, raised r))
     (compressBlock unitConfig firstRowKernel counterDraw (blockNode 2 1 True) 0)
   = map_option (\<lambda>r. (hMatrixData r, raised r))
     (compressBlock unitConfig firstRowKernel (offsetDraw 7) (blockNode 2 1 True) 7)"
proof -
  have bis: "\<And>g1 g2 b. g2 = g1 + 7 \<Longrightarrow>
      fst (counterDraw g1 b) = fst (offsetDraw 7 g2 b)
      \<and> snd (offsetDraw 7 g2 b) = snd (counterDraw g1 b) + 7"
    by (simp add: counterDraw_def offsetDraw_def)
  have start: "(7::nat) = 0 + 7" by simp
  show ?thesis
    using same_draws_same_factors[of "\<lambda>g1 g2. g2 = g1 + 7" counterDraw "offsetDraw 7" 0 7
                unitConfig firstRowKernel "blockNode 2 1 True", OF bis start]
    by simp
qed

text \<open>
  C4, as stated, fails. The claim: the generator is local to each invocation, and two
  runs on the same node produce the same pivot sequence and the same factor pair. A
  first run on the admissible block of two rows and one column whose first row is 1
  and whose second row is 0 draws row 0 and ends with a factor pair of rank 1; it leaves
  the shared generator advanced by one draw. The second run on the same node, from
  that state, draws row 1 and ends with a factor pair of rank 0.
\<close>

theorem shared_generator_runs_differ:
  "compressBlock unitConfig firstRowKernel counterDraw (blockNode 2 1 True) 0 \<noteq> None
   \<and> generatorAfter (the (compressBlock unitConfig firstRowKernel counterDraw
                              (blockNode 2 1 True) 0)) \<noteq> 0
   \<and> cols (factorA (hMatrixData (the (compressBlock unitConfig firstRowKernel counterDraw
                              (blockNode 2 1 True) 0)))) = 1
   \<and> compressBlock unitConfig firstRowKernel counterDraw (blockNode 2 1 True)
         (generatorAfter (the (compressBlock unitConfig firstRowKernel counterDraw
                                 (blockNode 2 1 True) 0))) \<noteq> None
   \<and> cols (factorA (hMatrixData (the
         (compressBlock unitConfig firstRowKernel counterDraw (blockNode 2 1 True)
            (generatorAfter (the (compressBlock unitConfig firstRowKernel counterDraw
                                    (blockNode 2 1 True) 0))))))) = 0"
proof -
  let ?run1 = "compressBlock unitConfig firstRowKernel counterDraw (blockNode 2 1 True) 0"
  let ?run2 = "compressBlock unitConfig firstRowKernel counterDraw (blockNode 2 1 True) 1"
  have r1: "map_option (\<lambda>r. (generatorAfter r, cols (factorA (hMatrixData r)))) ?run1
            = Some (1, 1)"
    by (simp add: example_defs aca_defs eigen_defs upt_0_2)
  have r2: "map_option (\<lambda>r. cols (factorA (hMatrixData r))) ?run2 = Some 0"
    by (simp add: example_defs aca_defs eigen_defs upt_0_2)
  from r1 have g: "generatorAfter (the ?run1) = 1"
    and c1: "cols (factorA (hMatrixData (the ?run1))) = 1" and n1: "?run1 \<noteq> None"
    by (cases ?run1; simp)+
  from r2 have c2: "cols (factorA (hMatrixData (the ?run2))) = 0" and n2: "?run2 \<noteq> None"
    by (cases ?run2; simp)+
  show ?thesis unfolding g using c1 c2 n1 n2 by simp
qed

section \<open>The rank of the result\<close>

text \<open>
  The shape of the factors is kept by every pass through the loop body, however it
  ends.
\<close>

lemma shapeInvariant_mono:
  "shapeInvariant cfg i st \<Longrightarrow> i \<le> k \<Longrightarrow> shapeInvariant cfg k st"
  unfolding shapeInvariant_def
  by (meson Suc_le_mono add_le_mono1 le_trans mult_le_mono2)

lemma shapeInvariant_frame:
  "shapeInvariant cfg i (st\<lparr>previousRowIndices := u, generator := g\<rparr>) = shapeInvariant cfg i st"
  by (simp add: shapeInvariant_def)

lemma setCol_shape: "setCol M k V = Inr M' \<Longrightarrow> k < cols M \<and> cols M' = cols M \<and> rows M' = rows M"
  by (auto simp: setCol_def split: if_splits)

lemma setRow_shape: "setRow M k V = Inr M' \<Longrightarrow> k < rows M \<and> cols M' = cols M \<and> rows M' = rows M"
  by (auto simp: setRow_def split: if_splits)

lemma acaUpdate_shape:
  assumes "shapeInvariant cfg i st"
  shows "shapeInvariant cfg (i + 1) (stateOf (acaUpdate cfg acc node newRow c st))"
proof -
  let ?g = "if rankCount st = cols (A st)
            then st\<lparr>A := growCols (A st) (resizeThreshold cfg),
                    B := growRows (B st) (resizeThreshold cfg)\<rparr>
            else st"
  have st: "shapeInvariant cfg (i + 1) st"
    using assms by (rule shapeInvariant_mono) simp
  have g: "rankCount ?g \<le> i \<and> rankCount ?g \<le> cols (A ?g) \<and> rows (B ?g) = cols (A ?g)
           \<and> cols (A ?g) \<le> resizeThreshold cfg * (i + 2)"
    using assms by (auto simp: shapeInvariant_def growCols_def growRows_def)
  then have gi: "shapeInvariant cfg (i + 1) ?g"
    by (simp add: shapeInvariant_def)
  show ?thesis
  proof (cases "evaluateMatMinusLowRank acc node (rowClusterRange node)
         (c + fst (columnClusterRange node), c + fst (columnClusterRange node) + 1) (A st) (B st)")
    case (Inl x)
    with st show ?thesis by (simp add: acaUpdate_def Let_def)
  next
    case newCol: (Inr newCol)
    show ?thesis
    proof (cases "frobeniusNorm (A st) (B st)")
      case (Inl x)
      with st newCol show ?thesis by (simp add: acaUpdate_def Let_def)
    next
      case fro: (Inr fro)
      show ?thesis
      proof (cases "setCol (A ?g) (rankCount ?g) newCol")
        case (Inl x)
        with gi newCol fro show ?thesis by (simp add: acaUpdate_def Let_def)
      next
        case sc: (Inr A')
        note scs = setCol_shape[OF sc]
        show ?thesis
        proof (cases "setRow (B ?g) (rankCount ?g) newRow")
          case (Inl x)
          have "shapeInvariant cfg (i + 1) (?g\<lparr>A := A'\<rparr>)"
            using g scs by (simp add: shapeInvariant_def)
          with newCol fro sc Inl show ?thesis by (simp add: acaUpdate_def Let_def)
        next
          case sr: (Inr B')
          note srs = setRow_shape[OF sr]
          have "shapeInvariant cfg (i + 1) (?g\<lparr>A := A', B := B', rankCount := rankCount ?g + 1\<rparr>)"
            using g scs srs by (simp add: shapeInvariant_def)
          with newCol fro sc sr show ?thesis by (simp add: acaUpdate_def Let_def)
        qed
      qed
    qed
  qed
qed

lemma acaTrial_shape:
  assumes "shapeInvariant cfg i st"
  shows "shapeInvariant cfg (i + 1) (stateOf (acaTrial cfg acc node row st))"
proof -
  have st: "shapeInvariant cfg (i + 1) st"
    using assms by (rule shapeInvariant_mono) simp
  show ?thesis
    using st acaUpdate_shape[OF assms]
    by (simp add: acaTrial_def split: sum.split prod.split)
qed

lemma acaBody_shape:
  assumes "shapeInvariant cfg i st" and "acaBody cfg acc draw node st = Some out"
  shows "shapeInvariant cfg (i + 1) (stateOf out)"
proof -
  obtain row used g' where
    out: "out = acaTrial cfg acc node row (st\<lparr>previousRowIndices := used, generator := g'\<rparr>)"
    using assms(2) by (auto simp: acaBody_def split: option.splits)
  have "shapeInvariant cfg i (st\<lparr>previousRowIndices := used, generator := g'\<rparr>)"
    using assms(1) by (simp add: shapeInvariant_frame)
  then show ?thesis unfolding out by (rule acaTrial_shape)
qed

lemma acaLoop_shape:
  "acaLoop cfg acc draw node i st = Some (Inr st') \<Longrightarrow> i \<le> iterationLimit cfg node \<Longrightarrow>
   shapeInvariant cfg i st \<Longrightarrow> shapeInvariant cfg (iterationLimit cfg node) st'"
proof (induction cfg acc draw node i st rule: acaLoop.induct)
  case (1 cfg acc draw node i st)
  note res = "1.prems"(1) and le = "1.prems"(2) and inv = "1.prems"(3)
  show ?case
  proof (cases "i < iterationLimit cfg node")
    case False
    with le have "i = iterationLimit cfg node" by simp
    moreover from False res have "st' = st" by (simp add: acaLoop.simps)
    ultimately show ?thesis using inv by simp
  next
    case True
    show ?thesis
    proof (cases "acaBody cfg acc draw node st")
      case None
      with True res show ?thesis by (simp add: acaLoop.simps)
    next
      case (Some out)
      note inv' = acaBody_shape[OF inv Some]
      show ?thesis
      proof (cases out)
        case (Continue s)
        with True Some res have "acaLoop cfg acc draw node (i + 1) s = Some (Inr st')"
          by (simp add: acaLoop.simps)
        moreover have "i + 1 \<le> iterationLimit cfg node" using True by simp
        moreover have "shapeInvariant cfg (i + 1) s" using inv' Continue by simp
        ultimately show ?thesis using "1.IH"[OF True Some Continue] by blast
      next
        case (Break s)
        with True Some res have "st' = s" by (simp add: acaLoop.simps)
        moreover have "shapeInvariant cfg (i + 1) s" using inv' Break by simp
        ultimately show ?thesis using True shapeInvariant_mono[of cfg "i + 1" s] by simp
      next
        case (Abort e s)
        with True Some res show ?thesis by (simp add: acaLoop.simps)
      qed
    qed
  qed
qed

lemma truncateFactors_shape:
  assumes "truncateFactors st = Inr st'"
    and "shapeInvariant cfg i st"
    and "resizeThreshold cfg * (i + 1) < 2 ^ 64"
  shows "cols (A st') = rankCount st \<and> rows (B st') = rankCount st \<and> rankCount st' = rankCount st"
proof -
  have le: "rankCount st \<le> cols (A st)" and eq: "rows (B st) = cols (A st)"
    and small: "cols (A st) < 2 ^ 64"
    using assms(2,3) by (auto simp: shapeInvariant_def)
  have sub: "sizeSub (cols (A st)) (rankCount st) = cols (A st) - rankCount st"
    using le small by (rule sizeSub_le)
  show ?thesis
  proof (cases "0 < cols (A st) - rankCount st")
    case True
    with assms(1) sub show ?thesis
      by (auto simp: truncateFactors_def block_def split: sum.splits if_splits)
  next
    case False
    with le have "cols (A st) = rankCount st" by simp
    moreover from False assms(1) sub have "st' = st" by (simp add: truncateFactors_def)
    ultimately show ?thesis using eq by simp
  qed
qed

lemma initialState_shape: "shapeInvariant cfg 0 (initialState cfg node g)"
  by (simp add: shapeInvariant_def initialState_def zeroMatrix_def)

text \<open>
  A call on an admissible node that does not stop on a failed assertion ends with
  factors of exactly \<open>rankCount\<close> columns and rows, and \<open>rankCount\<close> is at most the
  iteration limit. The widths are \<open>std::size_t\<close> values: the widest the factors can
  get is below \<open>2 ^ 64\<close>.
\<close>

lemma completed_run_rank:
  assumes "admissible node"
    and "resizeThreshold cfg * (iterationLimit cfg node + 1) < 2 ^ 64"
    and "compressBlock cfg acc draw node g = Some r"
    and "raised r \<noteq> Some EigenAssert"
  shows "\<exists>st. acaLoop cfg acc draw node 0 (initialState cfg node g) = Some (Inr st)
            \<and> rankCount st \<le> iterationLimit cfg node
            \<and> cols (factorA (hMatrixData r)) = rankCount st
            \<and> rows (factorB (hMatrixData r)) = rankCount st"
proof (cases "acaLoop cfg acc draw node 0 (initialState cfg node g)")
  case None
  with assms(1,3) show ?thesis by (simp add: compressBlock_def)
next
  case (Some res)
  show ?thesis
  proof (cases res)
    case (Inl p)
    obtain e s where p: "p = (e, s)" by (cases p)
    from Some Inl p have "e = EigenAssert" using acaLoop_error by blast
    with assms Some Inl p show ?thesis by (auto simp: compressBlock_def)
  next
    case (Inr st)
    have inv: "shapeInvariant cfg (iterationLimit cfg node) st"
      using Some Inr initialState_shape[of cfg node g]
      by (intro acaLoop_shape[of cfg acc draw node 0 "initialState cfg node g" st]) simp_all
    show ?thesis
    proof (cases "truncateFactors st")
      case (Inl p)
      obtain e s where p: "p = (e, s)" by (cases p)
      from Inl p have "e = EigenAssert" using truncateFactors_error by blast
      with assms Some Inr Inl p show ?thesis by (auto simp: compressBlock_def)
    next
      case tr: (Inr st')
      note sh = truncateFactors_shape[OF tr inv assms(2)]
      have "rankCount st \<le> iterationLimit cfg node"
        using inv by (simp add: shapeInvariant_def)
      moreover have "hMatrixData r = LowRank (A st') (B st')"
        using assms(1,3) Some Inr tr by (auto simp: compressBlock_def)
      ultimately show ?thesis using sh Some Inr by simp
    qed
  qed
qed

text \<open>
  On a block whose entries are all zero every residual row is zero and is skipped: a
  call that does not stop on a failed assertion ends with rank 0.
\<close>

lemma ssum_zeros: "ssum (map (\<lambda>k. Fin 0) xs) = Fin 0"
  by (induction xs) (simp_all add: ssum_def)

lemma maxCoeff_fold_zeros:
  assumes "coeff M = (\<lambda>i j. Fin 0)"
  shows "foldl (\<lambda>(res, r, c) (i, j).
                 if sless res (coeff M i j) then (coeff M i j, i, j) else (res, r, c))
              (Fin 0, a, b) xs = (Fin 0, a, b)"
proof (induction xs)
  case Nil
  show ?case by simp
next
  case (Cons x xs)
  obtain i j where x: "x = (i, j)" by (cases x)
  show ?case using Cons.IH by (simp add: x assms)
qed

lemma maxCoeff_zeros:
  assumes "coeff M = (\<lambda>i j. Fin 0)" and "maxCoeff M = Inr (val, r, c)"
  shows "val = Fin 0"
proof -
  have "maxCoeff M = Inr (Fin 0, 0, 0)"
    using assms(2) maxCoeff_fold_zeros[OF assms(1), of 0 0 "tl (visitOrder M)"]
    by (simp add: maxCoeff_def assms(1) split: if_splits)
  with assms(2) show ?thesis by simp
qed

lemma block_zeros:
  "coeff M = (\<lambda>i j. Fin 0) \<Longrightarrow> block M a b c d = Inr M' \<Longrightarrow> coeff M' = (\<lambda>i j. Fin 0)"
  by (auto simp: block_def split: if_splits)

lemma mprod_zeros:
  "coeff L = (\<lambda>i j. Fin 0) \<Longrightarrow> coeff R = (\<lambda>i j. Fin 0) \<Longrightarrow> mprod L R = Inr P \<Longrightarrow>
   coeff P = (\<lambda>i j. Fin 0)"
  by (auto simp: mprod_def ssum_zeros split: if_splits)

lemma msub_zeros:
  "coeff L = (\<lambda>i j. Fin 0) \<Longrightarrow> coeff R = (\<lambda>i j. Fin 0) \<Longrightarrow> msub L R = Inr D \<Longrightarrow>
   coeff D = (\<lambda>i j. Fin 0)"
  by (auto simp: msub_def sminus_def split: if_splits)

lemma evaluate_zeros:
  assumes "coeff X = (\<lambda>i j. Fin 0)" and "coeff Y = (\<lambda>i j. Fin 0)"
    and "evaluateMatMinusLowRank (\<lambda>i j. Fin 0) node rr cr X Y = Inr M"
  shows "coeff M = (\<lambda>i j. Fin 0)"
proof -
  let ?data = "computeMatrixBlock (\<lambda>i j. Fin 0) rr cr"
  have d: "coeff ?data = (\<lambda>i j. Fin 0)" by (simp add: computeMatrixBlock_def)
  obtain Ab Bb P where
    Ab: "block X (sizeSub (fst rr) (fst (rowClusterRange node))) 0
           (sizeSub (sizeSub (snd rr) (fst (rowClusterRange node)))
                    (sizeSub (fst rr) (fst (rowClusterRange node)))) (cols X) = Inr Ab"
    and Bb: "block Y 0 (sizeSub (fst cr) (fst (columnClusterRange node)))
           (sizeSub (sizeSub (snd cr) (fst (columnClusterRange node)))
                    (sizeSub (fst cr) (fst (columnClusterRange node)))) (rows Y) = Inr Bb"
    and P: "mprod Ab Bb = Inr P" and M: "msub ?data P = Inr M"
    using assms(3)
    by (simp add: evaluateMatMinusLowRank_def Let_def split: sum.splits)
  have "coeff Ab = (\<lambda>i j. Fin 0)" using assms(1) Ab by (rule block_zeros)
  moreover have "coeff Bb = (\<lambda>i j. Fin 0)" using assms(2) Bb by (rule block_zeros)
  ultimately have "coeff P = (\<lambda>i j. Fin 0)" using P by (rule mprod_zeros)
  with d show ?thesis using M by (rule msub_zeros)
qed

lemma acaTrial_zeros:
  assumes "zeroFactors st"
  shows "zeroFactors (stateOf (acaTrial cfg (\<lambda>i j. Fin 0) node row st))"
proof (cases "evaluateMatMinusLowRank (\<lambda>i j. Fin 0) node (row, row + 1)
                (columnClusterRange node) (A st) (B st)")
  case (Inl e)
  with assms show ?thesis by (simp add: acaTrial_def)
next
  case (Inr M)
  have "coeff (A st) = (\<lambda>i j. Fin 0)" "coeff (B st) = (\<lambda>i j. Fin 0)"
    using assms by (simp_all add: zeroFactors_def)
  then have zM: "coeff M = (\<lambda>i j. Fin 0)"
    using Inr by (rule evaluate_zeros)
  show ?thesis
  proof (cases "maxCoeff (cwiseAbs M)")
    case (Inl e)
    with assms Inr show ?thesis by (simp add: acaTrial_def)
  next
    case mc: (Inr m)
    obtain val r c where m: "m = (val, r, c)" by (cases m)
    have "coeff (cwiseAbs M) = (\<lambda>i j. Fin 0)" using zM by (simp add: cwiseAbs_def)
    from maxCoeff_zeros[OF this] mc m have "val = Fin 0" by simp
    then have "sless val pivotFloor" by (simp add: pivotFloor_def)
    with assms Inr mc m show ?thesis by (simp add: acaTrial_def)
  qed
qed

lemma acaBody_zeros:
  assumes "zeroFactors st" and "acaBody cfg (\<lambda>i j. Fin 0) draw node st = Some out"
  shows "zeroFactors (stateOf out)"
proof -
  obtain row used g' where
    out: "out = acaTrial cfg (\<lambda>i j. Fin 0) node row
                  (st\<lparr>previousRowIndices := used, generator := g'\<rparr>)"
    using assms(2) by (auto simp: acaBody_def split: option.splits)
  have "zeroFactors (st\<lparr>previousRowIndices := used, generator := g'\<rparr>)"
    using assms(1) by (simp add: zeroFactors_def)
  then show ?thesis unfolding out by (rule acaTrial_zeros)
qed

lemma acaLoop_zeros:
  "acaLoop cfg acc draw node i st = Some (Inr st') \<Longrightarrow> acc = (\<lambda>i j. Fin 0) \<Longrightarrow>
   zeroFactors st \<Longrightarrow> zeroFactors st'"
proof (induction cfg acc draw node i st rule: acaLoop.induct)
  case (1 cfg acc draw node i st)
  note res = "1.prems"(1) and acc = "1.prems"(2) and inv = "1.prems"(3)
  show ?case
  proof (cases "i < iterationLimit cfg node")
    case False
    with res inv show ?thesis by (simp add: acaLoop.simps)
  next
    case True
    show ?thesis
    proof (cases "acaBody cfg acc draw node st")
      case None
      with True res show ?thesis by (simp add: acaLoop.simps)
    next
      case (Some out)
      have inv': "zeroFactors (stateOf out)"
        using inv Some unfolding acc by (rule acaBody_zeros)
      show ?thesis
      proof (cases out)
        case (Continue s)
        with True Some res have "acaLoop cfg acc draw node (i + 1) s = Some (Inr st')"
          by (simp add: acaLoop.simps)
        moreover have "zeroFactors s" using inv' Continue by simp
        ultimately show ?thesis using "1.IH"[OF True Some Continue] acc by blast
      next
        case (Break s)
        with True Some res have "st' = s" by (simp add: acaLoop.simps)
        with inv' Break show ?thesis by simp
      next
        case (Abort e s)
        with True Some res show ?thesis by (simp add: acaLoop.simps)
      qed
    qed
  qed
qed

lemma all_zero_block_rank:
  assumes "admissible node"
    and "resizeThreshold cfg * (iterationLimit cfg node + 1) < 2 ^ 64"
    and "compressBlock cfg (\<lambda>i j. Fin 0) draw node g = Some r"
    and "raised r \<noteq> Some EigenAssert"
  shows "cols (factorA (hMatrixData r)) = 0 \<and> rows (factorB (hMatrixData r)) = 0"
proof -
  obtain st where st: "acaLoop cfg (\<lambda>i j. Fin 0) draw node 0 (initialState cfg node g) = Some (Inr st)"
    "cols (factorA (hMatrixData r)) = rankCount st" "rows (factorB (hMatrixData r)) = rankCount st"
    using completed_run_rank[OF assms] by blast
  have "zeroFactors (initialState cfg node g)"
    by (simp add: zeroFactors_def initialState_def zeroMatrix_def)
  with st(1) have "zeroFactors st" using acaLoop_zeros by blast
  then show ?thesis using st(2,3) by (simp add: zeroFactors_def)
qed

text \<open>
  C5. The claim: for every admissible block with non-empty ranges the result has rank
  \<open>k\<close> at most \<open>min(maxRank, rows, cols)\<close>, A has exactly \<open>k\<close> columns and B exactly
  \<open>k\<close> rows, and for an all-zero block \<open>k\<close> is 0. That is what a call yields when no
  assertion fails (the two lemmas above). On the admissible all-zero block of two rows
  and two columns, resize threshold 1, the first evaluation of a residual row stops on
  Eigen's bounds check (the block of B with rows and columns swapped), and the call ends
  there: the factors are left with the one zero column and the one zero row they were
  allocated with, not with zero columns and rows.
\<close>

theorem all_zero_block_stops_on_assertion:
  "map_option (\<lambda>r. (raised r, cols (factorA (hMatrixData r)), rows (factorB (hMatrixData r))))
     (compressBlock unitConfig (constantKernel (Fin 0)) counterDraw (blockNode 2 2 True) 0)
   = Some (Some EigenAssert, 1, 1)"
  by (simp add: example_defs aca_defs eigen_defs upt_0_2)

section \<open>The early stop\<close>

text \<open>
  The source takes from B a block with as many columns as B has rows. So an evaluation
  of a residual row that succeeds needs a B with at least as many rows as the block has
  columns, and an evaluation of a residual column that succeeds needs a B of exactly one
  row (the accessor's column has one column, and the product is subtracted from it).
\<close>

lemma sizeSub_self: "sizeSub a a = 0"
  by (simp add: sizeSub_def)

lemma sizeSub_less: "sizeSub a b < 2 ^ 64"
  by (simp add: sizeSub_def nat_less_iff)

lemma sizeSub_zero: "sizeSub (sizeSub a b) 0 = sizeSub a b"
  using sizeSub_less[of a b] by (simp add: sizeSub_le)

lemma sizeSub_succ: "sizeSub (Suc c) c = Suc 0"
  by (simp add: sizeSub_def)

lemma row_evaluation_columns:
  assumes "evaluateMatMinusLowRank acc node rr (columnClusterRange node) X Y = Inr M"
  shows "numberOfColumns node \<le> rows Y"
proof -
  let ?cr = "columnClusterRange node"
  obtain Bb where
    "block Y 0 (sizeSub (fst ?cr) (fst ?cr))
       (sizeSub (sizeSub (snd ?cr) (fst ?cr)) (sizeSub (fst ?cr) (fst ?cr))) (rows Y) = Inr Bb"
    using assms by (simp add: evaluateMatMinusLowRank_def Let_def split: sum.splits)
  then have "block Y 0 0 (numberOfColumns node) (rows Y) = Inr Bb"
    by (simp add: sizeSub_self sizeSub_zero numberOfColumns_def)
  then show ?thesis by (simp add: block_def split: if_splits)
qed

lemma column_evaluation_rows:
  assumes "evaluateMatMinusLowRank acc node rr (c, c + 1) X Y = Inr M"
  shows "rows Y = 1"
proof -
  let ?cr = "columnClusterRange node"
  let ?data = "computeMatrixBlock acc rr (c, c + 1)"
  obtain Ab Bb P where
    Bb: "block Y 0 (sizeSub c (fst ?cr))
           (sizeSub (sizeSub (c + 1) (fst ?cr)) (sizeSub c (fst ?cr))) (rows Y) = Inr Bb"
    and P: "mprod Ab Bb = Inr P" and M: "msub ?data P = Inr M"
    using assms by (simp add: evaluateMatMinusLowRank_def Let_def split: sum.splits)
  have "cols Bb = rows Y" using Bb by (auto simp: block_def split: if_splits)
  moreover have "cols P = cols Bb" using P by (auto simp: mprod_def split: if_splits)
  moreover have "cols ?data = cols P" using M by (auto simp: msub_def split: if_splits)
  moreover have "cols ?data = 1" by (simp add: computeMatrixBlock_def sizeSub_succ)
  ultimately show ?thesis by simp
qed

lemma acaUpdate_store_rows:
  assumes "acaUpdate cfg acc node newRow c st = out" and "\<And>e s. out \<noteq> Abort e s"
  shows "rows (B st) = 1"
proof (cases "evaluateMatMinusLowRank acc node (rowClusterRange node)
         (c + fst (columnClusterRange node), c + fst (columnClusterRange node) + 1) (A st) (B st)")
  case (Inl e)
  with assms(1) have "out = Abort e st" by (simp add: acaUpdate_def Let_def)
  with assms(2) show ?thesis by blast
next
  case (Inr newCol)
  then show ?thesis by (rule column_evaluation_rows)
qed

text \<open>
  So a term is stored in a block of one column only, where the loop makes one pass: at
  the head of every iteration below the limit nothing is stored yet.
\<close>

lemma acaTrial_keeps_zero:
  assumes "zeroFactors st"
    and "acaTrial cfg acc node row st = Continue st'"
    and "2 \<le> numberOfColumns node"
  shows "zeroFactors st'"
proof (cases "evaluateMatMinusLowRank acc node (row, row + 1) (columnClusterRange node)
                (A st) (B st)")
  case (Inl e)
  with assms(2) show ?thesis by (simp add: acaTrial_def)
next
  case (Inr residualRow)
  note wide = row_evaluation_columns[OF Inr]
  show ?thesis
  proof (cases "maxCoeff (cwiseAbs residualRow)")
    case (Inl e)
    with assms(2) Inr show ?thesis by (simp add: acaTrial_def)
  next
    case mc: (Inr m)
    obtain val r c where m: "m = (val, r, c)" by (cases m)
    show ?thesis
    proof (cases "sless val pivotFloor")
      case True
      with assms(1,2) Inr mc m show ?thesis by (simp add: acaTrial_def)
    next
      case False
      with assms(2) Inr mc m have
        "acaUpdate cfg acc node (divScalar residualRow (coeff residualRow 0 c)) c st = Continue st'"
        by (simp add: acaTrial_def)
      then have "rows (B st) = 1" by (rule acaUpdate_store_rows) simp
      with wide assms(3) show ?thesis by simp
    qed
  qed
qed

lemma loopReaches_zeroFactors:
  assumes "loopReaches cfg acc draw node g i st"
  shows "i < iterationLimit cfg node \<longrightarrow> zeroFactors st"
  using assms
proof (induction rule: loopReaches.induct)
  case start
  show ?case by (simp add: zeroFactors_def initialState_def zeroMatrix_def)
next
  case (step i st st')
  show ?case
  proof
    assume lim: "i + 1 < iterationLimit cfg node"
    then have wide: "2 \<le> numberOfColumns node" by (simp add: iterationLimit_def)
    have z: "zeroFactors st" using step.IH step.hyps(2) by simp
    obtain row used g' where
      out: "acaTrial cfg acc node row
              (st\<lparr>previousRowIndices := used, generator := g'\<rparr>) = Continue st'"
      using step.hyps(3) by (auto simp: acaBody_def split: option.splits)
    have "zeroFactors (st\<lparr>previousRowIndices := used, generator := g'\<rparr>)"
      using z by (simp add: zeroFactors_def)
    then show "zeroFactors st'" using out wide by (rule acaTrial_keeps_zero)
  qed
qed

text \<open>
  With nothing stored the Frobenius norm is zero, and a product of two norms is not
  below \<open>eps\<close> times zero: no pass through the body of the loop ends with \<open>break\<close>.
\<close>

lemma norm_mat_zeros:
  assumes "coeff M = (\<lambda>i j. Fin 0)"
  shows "norm_mat M = Fin 0"
proof -
  have "(\<lambda>(i, j). smul (coeff M i j) (coeff M i j)) = (\<lambda>k. Fin 0)"
    by (simp add: assms fun_eq_iff)
  then show ?thesis by (simp add: norm_mat_def ssum_zeros)
qed

lemma ssqrt_not_negative: "\<not> sless (ssqrt s) (Fin 0)"
  by (cases s) simp_all

lemma smul_not_negative:
  "\<not> sless a (Fin 0) \<Longrightarrow> \<not> sless b (Fin 0) \<Longrightarrow> \<not> sless (smul a b) (Fin 0)"
  by (cases a; cases b) (auto simp: zero_less_mult_iff mult_less_0_iff not_less split: if_splits)

lemma norm_product_not_below_zero:
  "\<not> sless (smul (norm_mat X) (norm_mat Y)) (smul e (Fin 0))"
proof -
  have n: "\<not> sless (smul (norm_mat X) (norm_mat Y)) (Fin 0)"
    by (intro smul_not_negative) (simp_all add: norm_mat_def ssqrt_not_negative)
  have "smul e (Fin 0) = Fin 0 \<or> smul e (Fin 0) = NaN" by (cases e) simp_all
  then show ?thesis
  proof
    assume "smul e (Fin 0) = Fin 0"
    with n show ?thesis by simp
  next
    assume nan: "smul e (Fin 0) = NaN"
    show ?thesis unfolding nan by (cases "smul (norm_mat X) (norm_mat Y)") simp_all
  qed
qed

lemma acaUpdate_no_break:
  assumes "zeroFactors st"
  shows "acaUpdate cfg acc node newRow c st \<noteq> Break s"
proof
  assume brk: "acaUpdate cfg acc node newRow c st = Break s"
  let ?g = "if rankCount st = cols (A st)
            then st\<lparr>A := growCols (A st) (resizeThreshold cfg),
                    B := growRows (B st) (resizeThreshold cfg)\<rparr>
            else st"
  obtain newCol fro A' B' where
    fro: "frobeniusNorm (A st) (B st) = Inr fro"
    and test: "sless (smul (norm_mat newCol) (norm_mat newRow)) (smul (eps cfg) fro)"
    using brk
    by (auto simp: acaUpdate_def Let_def split: sum.splits if_splits)
  obtain P where P: "mprod (A st) (B st) = Inr P" and f: "fro = norm_mat P"
    using fro by (auto simp: frobeniusNorm_def split: sum.splits)
  have "coeff P = (\<lambda>i j. Fin 0)"
    using assms P by (intro mprod_zeros[of "A st" "B st" P]) (simp_all add: zeroFactors_def)
  then have "fro = Fin 0" using f by (simp add: norm_mat_zeros)
  with test norm_product_not_below_zero show False by blast
qed

lemma acaTrial_no_break:
  assumes "zeroFactors st"
  shows "acaTrial cfg acc node row st \<noteq> Break s"
  using acaUpdate_no_break[OF assms]
  by (simp add: acaTrial_def split: sum.split prod.split)

lemma break_is_unreachable:
  assumes "loopReaches cfg acc draw node g i st" and "i < iterationLimit cfg node"
  shows "acaBody cfg acc draw node st \<noteq> Some (Break s)"
proof
  assume brk: "acaBody cfg acc draw node st = Some (Break s)"
  have z: "zeroFactors st" using loopReaches_zeroFactors[OF assms(1)] assms(2) by simp
  obtain row used g' where
    out: "acaTrial cfg acc node row
            (st\<lparr>previousRowIndices := used, generator := g'\<rparr>) = Break s"
    using brk by (auto simp: acaBody_def split: option.splits)
  have "zeroFactors (st\<lparr>previousRowIndices := used, generator := g'\<rparr>)"
    using z by (simp add: zeroFactors_def)
  from acaTrial_no_break[OF this] out show False by blast
qed


end
